theory Spec2Isabelle
  imports Complex_Main "HOL-Library.AList" "HOL-Library.List_Lexorder" "HOL-Library.Char_ord"
begin

section \<open>The graph library as the programs use it\<close>

text \<open>
  The three programs build and query an undirected \<^verbatim>\<open>networkx.Graph\<close>. The library keeps
  two insertion-ordered dictionaries: \<^verbatim>\<open>_node\<close> (node to attribute dictionary) and
  \<^verbatim>\<open>_adj\<close> (node to a dictionary from neighbour to the attribute dictionary of the edge).
  Both are association lists here, so that iteration order is the insertion order.
  Stations are strings. Edge weights are Python numbers; they are exact rationals here.
\<close>

type_synonym node = string

record node_data =
  lines :: "string set option"
  is_transfer :: "bool option"

record edge_data =
  line :: "string option"
  color :: "string option"
  weight :: "rat option"

record graph =
  nx_node :: "(node \<times> node_data) list"
  nx_adj :: "(node \<times> (node \<times> edge_data) list) list"

text \<open>
  The exceptions that the library and the programs can raise: the library's own
  (\<^verbatim>\<open>NetworkXError\<close>, \<^verbatim>\<open>NodeNotFound\<close>, \<^verbatim>\<open>NetworkXNoPath\<close>) and Python's.
\<close>

datatype error =
  NetworkXError | NodeNotFound | NetworkXNoPath | ValueError | KeyError | ZeroDivisionError

text \<open>\<^verbatim>\<open>n in graph\<close> looks the node up in \<^verbatim>\<open>_node\<close>.\<close>

definition contains :: "graph \<Rightarrow> node \<Rightarrow> bool" where
  "contains g n = (n \<in> fst ` set (nx_node g))"

text \<open>
  \<^verbatim>\<open>graph.neighbors(n)\<close> iterates over the keys of \<^verbatim>\<open>_adj[n]\<close> and raises
  \<^verbatim>\<open>NetworkXError\<close> when \<^verbatim>\<open>n\<close> has no entry.
\<close>

definition neighbors :: "graph \<Rightarrow> node \<Rightarrow> error + node list" where
  "neighbors g n =
     (case map_of (nx_adj g) n of
        None \<Rightarrow> Inl NetworkXError
      | Some nbrs \<Rightarrow> Inr (map fst nbrs))"


text \<open>
  \<^verbatim>\<open>add_edge(u, v, **attr)\<close> creates the two end points when they are missing (an empty
  adjacency dictionary and an empty attribute dictionary each), takes the edge's attribute
  dictionary if the edge exists and a new one otherwise, updates it with the given
  attributes, and stores the same dictionary under \<^verbatim>\<open>_adj[u][v]\<close> and \<^verbatim>\<open>_adj[v][u]\<close>.
  Storing under an existing key keeps the key's position; a new key goes to the end.
\<close>

definition empty_graph :: graph where
  "empty_graph = \<lparr>nx_node = [], nx_adj = []\<rparr>"

definition empty_node :: node_data where
  "empty_node = \<lparr>lines = None, is_transfer = None\<rparr>"

definition empty_edge :: edge_data where
  "empty_edge = \<lparr>line = None, color = None, weight = None\<rparr>"

definition ensure_node :: "node \<Rightarrow> graph \<Rightarrow> graph" where
  "ensure_node u g =
     (if u \<notin> fst ` set (nx_node g)
      then g\<lparr>nx_adj := AList.update u [] (nx_adj g), nx_node := AList.update u empty_node (nx_node g)\<rparr>
      else g)"

definition update_attrs :: "edge_data \<Rightarrow> edge_data \<Rightarrow> edge_data" where
  "update_attrs datadict attr =
     \<lparr>line = (case line attr of None \<Rightarrow> line datadict | Some x \<Rightarrow> Some x),
      color = (case edge_data.color attr of None \<Rightarrow> edge_data.color datadict | Some x \<Rightarrow> Some x),
      weight = (case weight attr of None \<Rightarrow> weight datadict | Some x \<Rightarrow> Some x)\<rparr>"

definition adj_of :: "graph \<Rightarrow> node \<Rightarrow> (node \<times> edge_data) list" where
  "adj_of g u = (case map_of (nx_adj g) u of None \<Rightarrow> [] | Some nbrs \<Rightarrow> nbrs)"

definition set_adj :: "node \<Rightarrow> node \<Rightarrow> edge_data \<Rightarrow> graph \<Rightarrow> graph" where
  "set_adj u v datadict g = g\<lparr>nx_adj := AList.map_entry u (AList.update v datadict) (nx_adj g)\<rparr>"

definition add_edge :: "node \<Rightarrow> node \<Rightarrow> edge_data \<Rightarrow> graph \<Rightarrow> graph" where
  "add_edge u v attr g =
     (let g' = ensure_node v (ensure_node u g);
          datadict = update_attrs
            (case map_of (adj_of g' u) v of None \<Rightarrow> empty_edge | Some d \<Rightarrow> d) attr
      in set_adj v u datadict (set_adj u v datadict g'))"

section \<open>Building and analysing the network (task 1)\<close>

text \<open>
  The input of \<^verbatim>\<open>create_graph_from_ubahn\<close> is the dictionary read from JSON: line name to
  a record with the line's stations and its colour, in the order of the file.
\<close>

record line_data =
  stations :: "string list"
  color :: string

type_synonym ubahn_data = "(string \<times> line_data) list"
type_synonym station_lines = "(string \<times> string list) list"

text \<open>
  The body of the inner loop, for one pair \<^verbatim>\<open>(stations[i], stations[i + 1])\<close>: both
  stations get an entry in \<^verbatim>\<open>station_lines\<close> if they have none, the line name is appended
  to both entries, and the edge is added with the line's name and colour.
\<close>

definition setdefault_empty :: "string \<Rightarrow> station_lines \<Rightarrow> station_lines" where
  "setdefault_empty station sl =
     (if station \<notin> fst ` set sl then AList.update station [] sl else sl)"

definition append_line :: "string \<Rightarrow> string \<Rightarrow> station_lines \<Rightarrow> station_lines" where
  "append_line station line_name sl = AList.map_entry station (\<lambda>ls. ls @ [line_name]) sl"

definition connect :: "string \<Rightarrow> string \<Rightarrow> graph \<times> station_lines \<Rightarrow> string \<times> string
    \<Rightarrow> graph \<times> station_lines" where
  "connect line_name col acc pair =
     (case (acc, pair) of ((G, sl), (station1, station2)) \<Rightarrow>
        (add_edge station1 station2
           \<lparr>line = Some line_name, color = Some col, weight = None\<rparr> G,
         append_line station2 line_name
           (append_line station1 line_name
              (setdefault_empty station2 (setdefault_empty station1 sl)))))"

text \<open>\<^verbatim>\<open>range(len(stations) - 1)\<close> is empty for a list of length 0 or 1.\<close>

definition consecutive :: "string list \<Rightarrow> (string \<times> string) list" where
  "consecutive sts = map (\<lambda>i. (sts ! i, sts ! (i + 1))) [0 ..< length sts - 1]"

definition process_line :: "graph \<times> station_lines \<times> (string \<times> string) list
    \<Rightarrow> string \<times> line_data \<Rightarrow> graph \<times> station_lines \<times> (string \<times> string) list" where
  "process_line acc entry =
     (case (acc, entry) of ((G, sl, line_colors), (line_name, ld)) \<Rightarrow>
        (case foldl (connect line_name (line_data.color ld)) (G, sl) (consecutive (stations ld)) of
           (G', sl') \<Rightarrow> (G', sl', AList.update line_name (line_data.color ld) line_colors)))"

definition set_station_attrs :: "graph \<Rightarrow> string \<times> string list \<Rightarrow> graph" where
  "set_station_attrs G entry =
     (case entry of (station, lns) \<Rightarrow>
        G\<lparr>nx_node := AList.map_entry station
             (\<lambda>d. d\<lparr>lines := Some (set lns), is_transfer := Some (card (set lns) > 1)\<rparr>)
             (nx_node G)\<rparr>)"

definition create_graph_from_ubahn :: "ubahn_data
    \<Rightarrow> graph \<times> station_lines \<times> (string \<times> string) list" where
  "create_graph_from_ubahn data =
     (case foldl process_line (empty_graph, [], []) data of
        (G, sl, line_colors) \<Rightarrow> (foldl set_station_attrs G sl, sl, line_colors))"

text \<open>
  \<^verbatim>\<open>analyze_graph\<close> prints statistics and returns the degrees and the transfer stations.
  What it only prints is left out. The degree of a node is the size of its adjacency
  dictionary, a self-loop counted twice. The average degree divides by the number of
  nodes, and \<^verbatim>\<open>degrees[station]\<close> is read for the first ten transfer stations.
  \<^verbatim>\<open>list.sort(key=..., reverse=True)\<close> is stable: entries with equal keys keep their
  order, so it is the stable ascending sort on the negated key.
\<close>

definition degree :: "graph \<Rightarrow> (node \<times> nat) list" where
  "degree G = map (\<lambda>(n, nbrs). (n, length nbrs + (if n \<in> fst ` set nbrs then 1 else 0))) (nx_adj G)"

definition transfer_candidates :: "station_lines \<Rightarrow> (string \<times> nat \<times> string list) list" where
  "transfer_candidates sl =
     concat (map (\<lambda>(station, lns).
        if card (set lns) > 1 then [(station, card (set lns), sort (remdups lns))] else []) sl)"

definition analyze_graph :: "graph \<Rightarrow> station_lines
    \<Rightarrow> error + (node \<times> nat) list \<times> (string \<times> nat \<times> string list) list" where
  "analyze_graph G sl =
     (let degrees = degree G in
      if degrees = [] then Inl ZeroDivisionError
      else
        let transfer_stations = sort_key (\<lambda>x. - int (fst (snd x))) (transfer_candidates sl) in
        if \<exists>x \<in> set (take 10 transfer_stations). fst x \<notin> fst ` set degrees then Inl KeyError
        else Inr (degrees, transfer_stations))"

section \<open>Depth-first and breadth-first search (task 2)\<close>

text \<open>
  The stack of \<^verbatim>\<open>dfs_path\<close> is a Python list used from its end; here the top of the
  stack is the head of the list. The inner \<^verbatim>\<open>for\<close> loop pushes every neighbour that is
  not visited, walking the neighbours in reverse.
\<close>

definition dfs_push :: "node set \<Rightarrow> node list \<Rightarrow> (node \<times> node list) list \<Rightarrow> node list
    \<Rightarrow> (node \<times> node list) list" where
  "dfs_push visited path stack nbrs =
     foldl (\<lambda>st neighbor. if neighbor \<notin> visited then (neighbor, path @ [neighbor]) # st else st)
       stack (rev nbrs)"

definition all_nodes :: "graph \<Rightarrow> node set" where
  "all_nodes g = fst ` set (nx_adj g) \<union> (\<Union>(u, nbrs) \<in> set (nx_adj g). fst ` set nbrs)"

function dfs_loop :: "graph \<Rightarrow> node \<Rightarrow> node set \<Rightarrow> (node \<times> node list) list
    \<Rightarrow> error + node list option" where
  "dfs_loop g goal visited [] = Inr None"
| "dfs_loop g goal visited ((current, path) # stack) =
     (if current = goal then Inr (Some path)
      else if current \<notin> visited then
        (case neighbors g current of
           Inl e \<Rightarrow> Inl e
         | Inr nbrs \<Rightarrow>
             dfs_loop g goal (insert current visited)
               (dfs_push (insert current visited) path stack nbrs))
      else dfs_loop g goal visited stack)"
  by pat_completeness auto

definition dfs_path :: "graph \<Rightarrow> node \<Rightarrow> node \<Rightarrow> error + node list option" where
  "dfs_path g start goal =
     (if \<not> contains g start \<or> \<not> contains g goal then Inr None
      else dfs_loop g goal {} [(start, [start])])"

text \<open>
  The queue of \<^verbatim>\<open>bfs_path\<close> is a deque read from the left and extended on the right.
  The inner loop marks a neighbour visited when it enqueues it.
\<close>

definition bfs_expand :: "node list \<Rightarrow> node list \<Rightarrow> node set \<times> (node \<times> node list) list
    \<Rightarrow> node set \<times> (node \<times> node list) list" where
  "bfs_expand path nbrs vq =
     foldl (\<lambda>(visited, queue) neighbor.
              if neighbor \<notin> visited
              then (insert neighbor visited, queue @ [(neighbor, path @ [neighbor])])
              else (visited, queue))
       vq nbrs"

function bfs_loop :: "graph \<Rightarrow> node \<Rightarrow> node set \<Rightarrow> (node \<times> node list) list
    \<Rightarrow> error + node list option" where
  "bfs_loop g goal visited [] = Inr None"
| "bfs_loop g goal visited ((current, path) # queue) =
     (if current = goal then Inr (Some path)
      else
        (case neighbors g current of
           Inl e \<Rightarrow> Inl e
         | Inr nbrs \<Rightarrow>
             (case bfs_expand path nbrs (visited, queue) of
                (visited', queue') \<Rightarrow> bfs_loop g goal visited' queue')))"
  by pat_completeness auto

definition bfs_path :: "graph \<Rightarrow> node \<Rightarrow> node \<Rightarrow> error + node list option" where
  "bfs_path g start goal =
     (if \<not> contains g start \<or> \<not> contains g goal then Inr None
      else bfs_loop g goal {start} [(start, [start])])"

section \<open>Example networks\<close>

definition scenario_a :: ubahn_data where
  "scenario_a = [(''Red'', \<lparr>stations = [''S1'', ''S2'', ''S3''], color = ''red''\<rparr>),
                 (''Blue'', \<lparr>stations = [''S3'', ''S4'', ''S5''], color = ''blue''\<rparr>)]"

definition scenario_b :: ubahn_data where
  "scenario_b = [(''Red'', \<lparr>stations = [''A'', ''B''], color = ''red''\<rparr>),
                 (''Green'', \<lparr>stations = [''C'', ''D''], color = ''green''\<rparr>)]"

definition single_station :: ubahn_data where
  "single_station = [(''U1'', \<lparr>stations = [''A''], color = ''red''\<rparr>)]"

definition tie_network :: ubahn_data where
  "tie_network = [(''U1'', \<lparr>stations = [''B'', ''A''], color = ''green''\<rparr>),
                  (''U2'', \<lparr>stations = [''B'', ''A''], color = ''red''\<rparr>)]"

text \<open>
  The order a transfer listing would have if ties were broken by station name: line
  count descending, then name ascending.
\<close>

definition claimed_order :: "(string \<times> nat \<times> string list) list \<Rightarrow> bool" where
  "claimed_order ts =
     sorted_wrt (\<lambda>x y. fst (snd x) > fst (snd y) \<or> (fst (snd x) = fst (snd y) \<and> fst x \<le> fst y)) ts"

section \<open>Weighted shortest paths (task 3)\<close>

text \<open>
  \<^verbatim>\<open>dijkstra_shortest_path\<close> calls the library's \<^verbatim>\<open>dijkstra_path\<close> and
  \<^verbatim>\<open>dijkstra_path_length\<close> with \<^verbatim>\<open>weight='weight'\<close>. Both run the same loop. The cost of
  an edge is \<^verbatim>\<open>data.get('weight', 1)\<close>: an edge without the attribute costs 1.
\<close>

definition cost :: "edge_data \<Rightarrow> rat" where
  "cost e = (case weight e of None \<Rightarrow> 1 | Some w \<Rightarrow> w)"

text \<open>
  The state of the loop: the final distances \<^verbatim>\<open>dist\<close>, the tentative distances \<^verbatim>\<open>seen\<close>,
  the counter \<^verbatim>\<open>c\<close> that numbers the pushes, the heap \<^verbatim>\<open>fringe\<close> of triples
  (distance, number, node), and the dictionary \<^verbatim>\<open>paths\<close>, which is absent when only the
  length is asked for. The heap is a list here; \<^verbatim>\<open>heappop\<close> removes the triple that is
  least by distance and then by number (the numbers are distinct, so nodes are never
  compared).
\<close>

type_synonym entry = "rat \<times> nat \<times> node"

record dijkstra_state =
  dist :: "node \<rightharpoonup> rat"
  seen :: "node \<rightharpoonup> rat"
  counter :: nat
  fringe :: "entry list"
  paths :: "(node \<rightharpoonup> node list) option"

definition entry_less :: "entry \<Rightarrow> entry \<Rightarrow> bool" where
  "entry_less x y = (fst x < fst y \<or> (fst x = fst y \<and> fst (snd x) < fst (snd y)))"

fun heappop :: "entry list \<Rightarrow> (entry \<times> entry list) option" where
  "heappop [] = None"
| "heappop (x # xs) =
     (case heappop xs of
        None \<Rightarrow> Some (x, [])
      | Some (m, rest) \<Rightarrow> if entry_less m x then Some (m, x # rest) else Some (x, xs))"

text \<open>
  One round of the inner loop, for the edge from the node \<open>v\<close> just finalised at distance
  \<open>d\<close> to its neighbour \<open>u\<close>. A neighbour that is final must not become closer
  (\<^verbatim>\<open>ValueError\<close>: contradictory paths); a neighbour that is new or closer than seen
  before is pushed; \<^verbatim>\<open>paths[v]\<close> is read when paths are recorded.
\<close>

definition relax :: "node \<Rightarrow> rat \<Rightarrow> dijkstra_state \<Rightarrow> node \<times> edge_data
    \<Rightarrow> error + dijkstra_state" where
  "relax v d st nbr =
     (case nbr of (u, e) \<Rightarrow>
        let vu_dist = d + cost e in
        (case dist st u of
           Some u_dist \<Rightarrow> if vu_dist < u_dist then Inl ValueError else Inr st
         | None \<Rightarrow>
             if (case seen st u of None \<Rightarrow> True | Some s \<Rightarrow> vu_dist < s)
             then
               (let st' = st\<lparr>seen := (seen st)(u \<mapsto> vu_dist),
                              fringe := fringe st @ [(vu_dist, counter st, u)],
                              counter := counter st + 1\<rparr>
                in case paths st of
                     None \<Rightarrow> Inr st'
                   | Some pm \<Rightarrow>
                       (case pm v of
                          None \<Rightarrow> Inl KeyError
                        | Some pv \<Rightarrow> Inr (st'\<lparr>paths := Some (pm(u \<mapsto> pv @ [u]))\<rparr>)))
             else Inr st))"

fun relax_all :: "node \<Rightarrow> rat \<Rightarrow> dijkstra_state \<Rightarrow> (node \<times> edge_data) list
    \<Rightarrow> error + dijkstra_state" where
  "relax_all v d st [] = Inr st"
| "relax_all v d st (nbr # nbrs) =
     (case relax v d st nbr of
        Inl e \<Rightarrow> Inl e
      | Inr st' \<Rightarrow> relax_all v d st' nbrs)"

function dijkstra_loop :: "graph \<Rightarrow> node \<Rightarrow> dijkstra_state \<Rightarrow> error + dijkstra_state" where
  "dijkstra_loop g target st =
     (case heappop (fringe st) of
        None \<Rightarrow> Inr st
      | Some ((d, c, v), rest) \<Rightarrow>
          if v \<in> dom (dist st) then dijkstra_loop g target (st\<lparr>fringe := rest\<rparr>)
          else if v = target then Inr (st\<lparr>fringe := rest, dist := (dist st)(v \<mapsto> d)\<rparr>)
          else
            (case map_of (nx_adj g) v of
               None \<Rightarrow> Inl KeyError
             | Some nbrs \<Rightarrow>
                 (case relax_all v d (st\<lparr>fringe := rest, dist := (dist st)(v \<mapsto> d)\<rparr>) nbrs of
                    Inl e \<Rightarrow> Inl e
                  | Inr st' \<Rightarrow> dijkstra_loop g target st')))"
  by pat_completeness auto

definition initial_state :: "node \<Rightarrow> bool \<Rightarrow> dijkstra_state" where
  "initial_state source with_paths =
     \<lparr>dist = Map.empty, seen = [source \<mapsto> 0], counter = 1, fringe = [(0, 0, source)],
      paths = (if with_paths then Some [source \<mapsto> [source]] else None)\<rparr>"

definition dijkstra_path :: "graph \<Rightarrow> node \<Rightarrow> node \<Rightarrow> error + node list" where
  "dijkstra_path g source target =
     (if \<not> contains g source then Inl NodeNotFound
      else if target = source then Inr [target]
      else
        (case dijkstra_loop g target (initial_state source True) of
           Inl e \<Rightarrow> Inl e
         | Inr st \<Rightarrow>
             (case dist st target of
                None \<Rightarrow> Inl NetworkXNoPath
              | Some d \<Rightarrow>
                  (case paths st of
                     None \<Rightarrow> Inl NetworkXNoPath
                   | Some pm \<Rightarrow> (case pm target of None \<Rightarrow> Inl NetworkXNoPath | Some p \<Rightarrow> Inr p)))))"

definition dijkstra_path_length :: "graph \<Rightarrow> node \<Rightarrow> node \<Rightarrow> error + rat" where
  "dijkstra_path_length g source target =
     (if \<not> contains g source then Inl NodeNotFound
      else if source = target then Inr 0
      else
        (case dijkstra_loop g target (initial_state source False) of
           Inl e \<Rightarrow> Inl e
         | Inr st \<Rightarrow> (case dist st target of None \<Rightarrow> Inl NetworkXNoPath | Some d \<Rightarrow> Inr d)))"

text \<open>\<^verbatim>\<open>graph[u][v]['weight']\<close> raises \<^verbatim>\<open>KeyError\<close> at each of its three look-ups.\<close>

definition edge_weight :: "graph \<Rightarrow> node \<Rightarrow> node \<Rightarrow> error + rat" where
  "edge_weight g u v =
     (case map_of (nx_adj g) u of
        None \<Rightarrow> Inl KeyError
      | Some nbrs \<Rightarrow>
          (case map_of nbrs v of
             None \<Rightarrow> Inl KeyError
           | Some e \<Rightarrow> (case weight e of None \<Rightarrow> Inl KeyError | Some w \<Rightarrow> Inr w)))"

fun edge_details :: "graph \<Rightarrow> node list \<Rightarrow> error + (node \<times> node \<times> rat) list" where
  "edge_details g (u # v # rest) =
     (case edge_weight g u v of
        Inl e \<Rightarrow> Inl e
      | Inr w \<Rightarrow> (case edge_details g (v # rest) of Inl e \<Rightarrow> Inl e | Inr ds \<Rightarrow> Inr ((u, v, w) # ds)))"
| "edge_details g path = Inr []"

text \<open>
  The function of the repository: the two exceptions it catches give the triple of
  \<^verbatim>\<open>None\<close>s, every other exception goes to the caller.
\<close>

definition no_result :: "error + node list option \<times> rat option \<times> (node \<times> node \<times> rat) list option"
  where "no_result = Inr (None, None, None)"

definition dijkstra_shortest_path :: "graph \<Rightarrow> node \<Rightarrow> node
    \<Rightarrow> error + node list option \<times> rat option \<times> (node \<times> node \<times> rat) list option" where
  "dijkstra_shortest_path g start goal =
     (case dijkstra_path g start goal of
        Inl e \<Rightarrow> if e = NetworkXNoPath \<or> e = NodeNotFound then no_result else Inl e
      | Inr path \<Rightarrow>
          (case dijkstra_path_length g start goal of
             Inl e \<Rightarrow> if e = NetworkXNoPath \<or> e = NodeNotFound then no_result else Inl e
           | Inr total_distance \<Rightarrow>
               (case edge_details g path of
                  Inl e \<Rightarrow> Inl e
                | Inr details \<Rightarrow> Inr (Some path, Some total_distance, Some details))))"

text \<open>
  The weighted cost of a path as \<^verbatim>\<open>compare_with_bfs\<close> adds it up, from 0 and from the
  start of the path.
\<close>

fun weighted_distance :: "graph \<Rightarrow> rat \<Rightarrow> node list \<Rightarrow> error + rat" where
  "weighted_distance g acc (u # v # rest) =
     (case edge_weight g u v of
        Inl e \<Rightarrow> Inl e
      | Inr w \<Rightarrow> weighted_distance g (acc + w) (v # rest))"
| "weighted_distance g acc path = Inr acc"

definition bfs_weighted_distance :: "graph \<Rightarrow> node list \<Rightarrow> error + rat" where
  "bfs_weighted_distance g path = weighted_distance g 0 path"

definition weighted_edge :: "node \<Rightarrow> node \<Rightarrow> rat \<Rightarrow> graph \<Rightarrow> graph" where
  "weighted_edge u v w g = add_edge u v \<lparr>line = None, color = None, weight = Some w\<rparr> g"

definition scenario_c :: graph where
  "scenario_c =
     weighted_edge ''E'' ''D'' 1 (weighted_edge ''C'' ''E'' 1 (weighted_edge ''A'' ''C'' 1
       (weighted_edge ''B'' ''D'' 3 (weighted_edge ''A'' ''B'' 3 empty_graph))))"

definition missing_weight_graph :: graph where
  "missing_weight_graph = add_edge ''B'' ''C'' empty_edge (weighted_edge ''A'' ''B'' 2 empty_graph)"

definition negative_graph :: graph where
  "negative_graph = weighted_edge ''A'' ''B'' (- 1) empty_graph"

section \<open>Random weights (task 3)\<close>

text \<open>
  \<^verbatim>\<open>graph.copy()\<close> builds a new graph: first every node with a copy of its attributes,
  then every adjacency entry \<open>(u, v, data)\<close> in the order of \<^verbatim>\<open>_adj\<close>, through the same
  steps as \<^verbatim>\<open>add_edge\<close>.
\<close>

definition update_node_attrs :: "node_data \<Rightarrow> node_data \<Rightarrow> node_data" where
  "update_node_attrs old new =
     \<lparr>lines = (case lines new of None \<Rightarrow> lines old | Some x \<Rightarrow> Some x),
      is_transfer = (case is_transfer new of None \<Rightarrow> is_transfer old | Some x \<Rightarrow> Some x)\<rparr>"

definition add_node :: "graph \<Rightarrow> node \<times> node_data \<Rightarrow> graph" where
  "add_node g entry =
     (case entry of (n, d) \<Rightarrow>
        let g' = ensure_node n g
        in g'\<lparr>nx_node := AList.map_entry n (\<lambda>old. update_node_attrs old d) (nx_node g')\<rparr>)"

definition adjacency_items :: "graph \<Rightarrow> (node \<times> node \<times> edge_data) list" where
  "adjacency_items g = concat (map (\<lambda>(u, nbrs). map (\<lambda>(v, d). (u, v, d)) nbrs) (nx_adj g))"

definition copy :: "graph \<Rightarrow> graph" where
  "copy g =
     foldl (\<lambda>G (u, v, d). add_edge u v d G)
       (foldl add_node empty_graph (nx_node g))
       (adjacency_items g)"

text \<open>
  \<^verbatim>\<open>graph.edges()\<close> walks the nodes in order and reports \<open>(n, nbr)\<close> for each neighbour
  that is not a node already walked, so each undirected edge appears once.
\<close>

fun edges_loop :: "node set \<Rightarrow> (node \<times> (node \<times> edge_data) list) list \<Rightarrow> (node \<times> node) list" where
  "edges_loop seen_nodes [] = []"
| "edges_loop seen_nodes ((n, nbrs) # rest) =
     map (\<lambda>nbr. (n, nbr)) (filter (\<lambda>nbr. nbr \<notin> seen_nodes) (map fst nbrs))
       @ edges_loop (insert n seen_nodes) rest"

definition edges :: "graph \<Rightarrow> (node \<times> node) list" where
  "edges g = edges_loop {} (nx_adj g)"

text \<open>
  \<^verbatim>\<open>graph[u][v]\<close> is the attribute dictionary of the edge. It is one object, stored
  under both directions, so \<^verbatim>\<open>graph[u][v]['weight'] = w\<close> is seen from \<open>v\<close> as well.
\<close>

definition lookup :: "graph \<Rightarrow> node \<Rightarrow> node \<Rightarrow> edge_data option" where
  "lookup g u v = map_of (adj_of g u) v"

definition set_weight :: "node \<Rightarrow> node \<Rightarrow> rat \<Rightarrow> graph \<Rightarrow> graph" where
  "set_weight u v w g =
     g\<lparr>nx_adj :=
         AList.map_entry v (AList.map_entry u (\<lambda>d. d\<lparr>weight := Some w\<rparr>))
           (AList.map_entry u (AList.map_entry v (\<lambda>d. d\<lparr>weight := Some w\<rparr>)) (nx_adj g))\<rparr>"

text \<open>
  The module \<^verbatim>\<open>random\<close> keeps one generator for the whole program. \<^verbatim>\<open>random.seed(seed)\<close>
  replaces its state by one that depends on the seed alone; \<^verbatim>\<open>random.random()\<close> returns
  the next number and moves the state on. The generator itself belongs to the Python
  library and is a parameter here. \<^verbatim>\<open>random.uniform(a, b)\<close> is \<^verbatim>\<open>a + (b - a) * random()\<close>.
\<close>

record 's random_module =
  rng_seed :: "int \<Rightarrow> 's"
  rng_random :: "'s \<Rightarrow> rat \<times> 's"

definition uniform :: "'s random_module \<Rightarrow> rat \<Rightarrow> rat \<Rightarrow> 's \<Rightarrow> rat \<times> 's" where
  "uniform R a b s = (case rng_random R s of (r, s') \<Rightarrow> (a + (b - a) * r, s'))"

text \<open>
  \<^verbatim>\<open>round(x, 2)\<close>: the nearest multiple of one hundredth, a tie going to the even one.
  Numbers are exact rationals here; the binary rounding of floats is outside the model.
\<close>

definition round_half_even :: "rat \<Rightarrow> int" where
  "round_half_even y =
     (let f = \<lfloor>y\<rfloor>; r = y - of_int f
      in if r < 1 / 2 then f else if 1 / 2 < r then f + 1 else if even f then f else f + 1)"

definition py_round2 :: "rat \<Rightarrow> rat" where
  "py_round2 x = of_int (round_half_even (x * 100)) / 100"

definition assign_weight :: "'s random_module \<Rightarrow> rat \<Rightarrow> rat \<Rightarrow> graph \<times> 's \<Rightarrow> node \<times> node
    \<Rightarrow> graph \<times> 's" where
  "assign_weight R min_weight max_weight acc edge =
     (case (acc, edge) of ((weighted_graph, s), (u, v)) \<Rightarrow>
        (case uniform R min_weight max_weight s of
           (w, s') \<Rightarrow> (set_weight u v (py_round2 w) weighted_graph, s')))"

text \<open>
  \<^verbatim>\<open>add_random_weights\<close> takes the state of the module's generator as it finds it and
  leaves the state it ends with, next to the graph it returns.
\<close>

definition add_random_weights :: "'s random_module \<Rightarrow> 's \<Rightarrow> graph \<Rightarrow> rat \<Rightarrow> rat \<Rightarrow> int
    \<Rightarrow> graph \<times> 's" where
  "add_random_weights R s0 g min_weight max_weight seed =
     (let s = rng_seed R seed;
          weighted_graph = copy g
      in foldl (assign_weight R min_weight max_weight) (weighted_graph, s) (edges weighted_graph))"

text \<open>
  A generator for examples: its state counts the draws, and the draws run through
  \<open>0, 1/4, 1/2, 3/4\<close>, starting at the seed.
\<close>

definition quarter_rng :: "nat random_module" where
  "quarter_rng = \<lparr>rng_seed = (\<lambda>seed. nat \<bar>seed\<bar>),
                  rng_random = (\<lambda>s. (of_nat (s mod 4) / 4, s + 1))\<rparr>"

section \<open>Paths, well-formed graphs and the invariants of the searches\<close>

text \<open>The neighbours that one round of the breadth-first loop enqueues, in order.\<close>

fun fresh :: "node set \<Rightarrow> node list \<Rightarrow> node list" where
  "fresh visited [] = []"
| "fresh visited (n # ns) =
     (if n \<notin> visited then n # fresh (insert n visited) ns else fresh visited ns)"

text \<open>
  A path is a non-empty list of nodes of the graph in which each node is followed by one
  of its neighbours. Its number of edges is its length less one.
\<close>

definition adjacent :: "graph \<Rightarrow> node \<Rightarrow> node \<Rightarrow> bool" where
  "adjacent g u v = (v \<in> fst ` set (adj_of g u))"

fun is_path :: "graph \<Rightarrow> node list \<Rightarrow> bool" where
  "is_path g [] = False"
| "is_path g [v] = contains g v"
| "is_path g (u # v # rest) = (contains g u \<and> adjacent g u v \<and> is_path g (v # rest))"

definition path_between :: "graph \<Rightarrow> node \<Rightarrow> node \<Rightarrow> node list \<Rightarrow> bool" where
  "path_between g s t p = (is_path g p \<and> hd p = s \<and> last p = t)"

definition num_edges :: "node list \<Rightarrow> nat" where
  "num_edges p = length p - 1"

text \<open>
  What the library maintains for every graph and the searches rely on: both dictionaries
  have the same keys, and every neighbour is itself a node (so \<^verbatim>\<open>neighbors\<close> never raises
  for a node reached along an edge).
\<close>

definition wf_graph :: "graph \<Rightarrow> bool" where
  "wf_graph g =
     (fst ` set (nx_node g) = fst ` set (nx_adj g) \<and>
      (\<forall>(u, nbrs) \<in> set (nx_adj g). \<forall>(v, d) \<in> set nbrs. v \<in> fst ` set (nx_adj g)))"

text \<open>
  The invariant of the breadth-first loop: every queued path is a shortest path to its
  node, the queue is ordered by length and spans at most two lengths, a visited node that
  has left the queue has all its neighbours visited, and the goal never leaves the queue
  without ending the search.
\<close>

definition shortest_to :: "graph \<Rightarrow> node \<Rightarrow> node \<Rightarrow> node list \<Rightarrow> bool" where
  "shortest_to g s t p =
     (path_between g s t p \<and> (\<forall>q. path_between g s t q \<longrightarrow> length p \<le> length q))"

definition bfs_inv :: "graph \<Rightarrow> node \<Rightarrow> node \<Rightarrow> node set \<Rightarrow> (node \<times> node list) list \<Rightarrow> bool" where
  "bfs_inv g start goal visited queue =
     (start \<in> visited \<and>
      (\<forall>(n, p) \<in> set queue. n \<in> visited \<and> shortest_to g start n p) \<and>
      sorted (map (length \<circ> snd) queue) \<and>
      (\<forall>(n, p) \<in> set queue. \<forall>(m, r) \<in> set queue. length r \<le> length p + 1) \<and>
      (\<forall>u \<in> visited. u \<notin> fst ` set queue \<longrightarrow> (\<forall>w. adjacent g u w \<longrightarrow> w \<in> visited)) \<and>
      (goal \<in> visited \<longrightarrow> goal \<in> fst ` set queue))"

text \<open>
  The invariant of the depth-first loop: every stacked path is a path from the start, and
  some stacked node reaches the goal through nodes that are not visited yet.
\<close>

definition dfs_inv :: "graph \<Rightarrow> node \<Rightarrow> node \<Rightarrow> node set \<Rightarrow> (node \<times> node list) list \<Rightarrow> bool" where
  "dfs_inv g start goal visited stack =
     ((\<forall>(n, p) \<in> set stack. path_between g start n p) \<and>
      (\<exists>(n, p) \<in> set stack. \<exists>q. path_between g n goal q \<and> set q \<inter> visited = {}))"

section \<open>Weighted paths and the invariant of the weighted search\<close>

text \<open>
  A weighted graph has a weight on every edge; the search needs the costs it reads (the
  weight, or 1 for an edge without one) to be non-negative.
\<close>

definition nonneg_costs :: "graph \<Rightarrow> bool" where
  "nonneg_costs g = (\<forall>(u, nbrs) \<in> set (nx_adj g). \<forall>(v, e) \<in> set nbrs. 0 \<le> cost e)"

definition all_weighted :: "graph \<Rightarrow> bool" where
  "all_weighted g = (\<forall>(u, nbrs) \<in> set (nx_adj g). \<forall>(v, e) \<in> set nbrs. weight e \<noteq> None)"

text \<open>The cost of a path as the search sees it: the sum of the costs of its edges.\<close>

definition step_cost :: "graph \<Rightarrow> node \<Rightarrow> node \<Rightarrow> rat" where
  "step_cost g u v = (case map_of (adj_of g u) v of None \<Rightarrow> 0 | Some e \<Rightarrow> cost e)"

fun path_cost :: "graph \<Rightarrow> node list \<Rightarrow> rat" where
  "path_cost g (u # v # rest) = step_cost g u v + path_cost g (v # rest)"
| "path_cost g p = 0"

text \<open>
  The invariant of the loop of Dijkstra's algorithm, for source \<open>s\<close> and target \<open>t\<close>. An
  edge out of a final node is relaxed when its head is final or stands in the heap at no
  more than the distance through that edge. The nodes in \<open>X\<close> are final but their edges
  are still being relaxed.
\<close>

definition relaxed :: "dijkstra_state \<Rightarrow> rat \<Rightarrow> node \<times> edge_data \<Rightarrow> bool" where
  "relaxed st d nbr =
     (fst nbr \<in> dom (dist st) \<or>
      (\<exists>d' c. (d', c, fst nbr) \<in> set (fringe st) \<and> d' \<le> d + cost (snd nbr)))"

definition dj_inv :: "graph \<Rightarrow> node \<Rightarrow> node \<Rightarrow> dijkstra_state \<Rightarrow> node set \<Rightarrow> bool" where
  "dj_inv g s t st X =
     ((s \<in> dom (dist st) \<or> (\<exists>c. (0, c, s) \<in> set (fringe st))) \<and>
      (\<forall>x d q. dist st x = Some d \<and> path_between g s x q \<longrightarrow> d \<le> path_cost g q) \<and>
      (\<forall>x d nbrs z. dist st x = Some d \<and> x \<notin> X \<and> map_of (nx_adj g) x = Some nbrs \<and> z \<in> set nbrs
          \<longrightarrow> relaxed st d z) \<and>
      t \<notin> dom (dist st) \<and>
      (\<forall>x dx d c u. dist st x = Some dx \<and> (d, c, u) \<in> set (fringe st) \<longrightarrow> dx \<le> d) \<and>
      (\<forall>pm. paths st = Some pm \<longrightarrow>
          (\<forall>(d, c, u) \<in> set (fringe st). u \<in> dom pm) \<and> dom (dist st) \<subseteq> dom pm \<and>
          (\<forall>u p. pm u = Some p \<longrightarrow> path_between g s u p)) \<and>
      (\<forall>(d, c, u) \<in> set (fringe st). \<exists>q. path_between g s u q) \<and>
      (\<forall>x \<in> dom (dist st). \<exists>q. path_between g s x q) \<and>
      (\<forall>u su. seen st u = Some su \<longrightarrow> u \<in> dom (dist st) \<or> (\<exists>c. (su, c, u) \<in> set (fringe st))))"

text \<open>What the loop leaves in its final state.\<close>

definition dj_result :: "graph \<Rightarrow> node \<Rightarrow> node \<Rightarrow> dijkstra_state \<Rightarrow> bool" where
  "dj_result g s t st =
     (case dist st t of
        None \<Rightarrow> \<not> (\<exists>q. path_between g s t q)
      | Some d \<Rightarrow>
          (\<exists>q. path_between g s t q) \<and> (\<forall>q. path_between g s t q \<longrightarrow> d \<le> path_cost g q) \<and>
          (\<forall>pm. paths st = Some pm \<longrightarrow> (\<exists>p. pm t = Some p \<and> path_between g s t p)))"

text \<open>Two stations are connected when a path joins them.\<close>

definition connected_pair :: "graph \<Rightarrow> node \<Rightarrow> node \<Rightarrow> bool" where
  "connected_pair g s t = (\<exists>q. path_between g s t q)"

text \<open>
  An adjacency dictionary has each neighbour once. A graph has no negative weight when
  every weight that is present is at least 0.
\<close>

definition distinct_neighbors :: "graph \<Rightarrow> bool" where
  "distinct_neighbors g = (\<forall>(u, nbrs) \<in> set (nx_adj g). distinct (map fst nbrs))"

definition no_negative_weight :: "graph \<Rightarrow> bool" where
  "no_negative_weight g =
     (\<forall>(u, nbrs) \<in> set (nx_adj g). \<forall>(v, e) \<in> set nbrs.
        case weight e of None \<Rightarrow> True | Some w \<Rightarrow> 0 \<le> w)"

text \<open>
  The total of a path when each edge counts its stored weight and an edge without a
  weight counts 1; and whether a path runs over an edge without a weight.
\<close>

definition weight_or_one :: "graph \<Rightarrow> node \<Rightarrow> node \<Rightarrow> rat" where
  "weight_or_one g u v =
     (case lookup g u v of
        None \<Rightarrow> 0
      | Some e \<Rightarrow> (case weight e of None \<Rightarrow> 1 | Some w \<Rightarrow> w))"

fun path_sum :: "graph \<Rightarrow> node list \<Rightarrow> rat" where
  "path_sum g (u # v # rest) = weight_or_one g u v + path_sum g (v # rest)"
| "path_sum g p = 0"

definition lacks_weight :: "graph \<Rightarrow> node \<Rightarrow> node \<Rightarrow> bool" where
  "lacks_weight g u v = (case lookup g u v of None \<Rightarrow> False | Some e \<Rightarrow> weight e = None)"

fun traverses_unweighted :: "graph \<Rightarrow> node list \<Rightarrow> bool" where
  "traverses_unweighted g (u # v # rest) = (lacks_weight g u v \<or> traverses_unweighted g (v # rest))"
| "traverses_unweighted g p = False"

text \<open>
  Every distance in the heap and every final distance is the cost of some path from the
  source.
\<close>

definition dj_attained :: "graph \<Rightarrow> node \<Rightarrow> dijkstra_state \<Rightarrow> bool" where
  "dj_attained g s st =
     ((\<forall>(d, c, u) \<in> set (fringe st). \<exists>q. path_between g s u q \<and> path_cost g q = d) \<and>
      (\<forall>x d. dist st x = Some d \<longrightarrow> (\<exists>q. path_between g s x q \<and> path_cost g q = d)))"

section \<open>Invariants of the copied graph\<close>

text \<open>
  The copy is built by \<^verbatim>\<open>add_edge\<close> alone, so its two dictionaries have the same keys and
  every edge is stored under both directions. A weight is in order when it is present and
  has the property asked for.
\<close>

definition keys_agree :: "graph \<Rightarrow> bool" where
  "keys_agree g = (fst ` set (nx_node g) = fst ` set (nx_adj g))"

definition symmetric :: "graph \<Rightarrow> bool" where
  "symmetric g = (\<forall>u v. lookup g u v \<noteq> None \<longrightarrow> lookup g v u \<noteq> None)"

definition weight_ok :: "(rat \<Rightarrow> bool) \<Rightarrow> edge_data \<Rightarrow> bool" where
  "weight_ok P d = (case weight d of None \<Rightarrow> False | Some w \<Rightarrow> P w)"

section \<open>Line sets of stations and line tags of edges\<close>

text \<open>
  The line names recorded on a station (the node attribute \<^verbatim>\<open>lines\<close>), and the line tags
  found on the edges at a station: for each neighbour \<open>v\<close> of \<open>s\<close>, the attribute
  \<^verbatim>\<open>G[s][v]['line']\<close>.
\<close>

definition station_line_set :: "graph \<Rightarrow> node \<Rightarrow> string set option" where
  "station_line_set G s = (case map_of (nx_node G) s of None \<Rightarrow> None | Some nd \<Rightarrow> lines nd)"

definition incident_tags :: "graph \<Rightarrow> node \<Rightarrow> string set" where
  "incident_tags G s =
     set (concat (map (\<lambda>v. case lookup G s v of
                               None \<Rightarrow> []
                             | Some d \<Rightarrow> (case line d of None \<Rightarrow> [] | Some l \<Rightarrow> [l]))
                      (map fst (adj_of G s))))"

text \<open>
  The pairs of consecutive stations of the input, each with the name and colour of its
  line, in the order in which the construction meets them. No pair is shared when two
  entries that join the same two stations carry the same line name.
\<close>

definition line_pairs :: "ubahn_data \<Rightarrow> (string \<times> string \<times> string \<times> string) list" where
  "line_pairs data =
     concat (map (\<lambda>(line_name, ld).
                    map (\<lambda>(a, b). (line_name, line_data.color ld, a, b)) (consecutive (stations ld)))
                 data)"

definition no_shared_pair :: "(string \<times> string \<times> string \<times> string) list \<Rightarrow> bool" where
  "no_shared_pair evs =
     (\<forall>(l, c, a, b) \<in> set evs. \<forall>(l', c', a', b') \<in> set evs.
        (a = a' \<and> b = b') \<or> (a = b' \<and> b = a') \<longrightarrow> l = l')"

text \<open>
  The construction, one pair at a time, and what holds of the graph and the table of lines
  while it runs: every edge tag is a line recorded on both ends of the edge, and every
  recorded line joins the station to some neighbour in the input.
\<close>

definition lines_of :: "station_lines \<Rightarrow> string \<Rightarrow> string list" where
  "lines_of sl s = (case map_of sl s of None \<Rightarrow> [] | Some ls \<Rightarrow> ls)"

definition connect_event :: "graph \<times> station_lines \<Rightarrow> string \<times> string \<times> string \<times> string
    \<Rightarrow> graph \<times> station_lines" where
  "connect_event acc ev = (case ev of (l, c, a, b) \<Rightarrow> connect l c acc (a, b))"

definition joins :: "(string \<times> string \<times> string \<times> string) list \<Rightarrow> string \<Rightarrow> string \<Rightarrow> string \<Rightarrow> bool" where
  "joins evs l u v = (\<exists>c. (l, c, u, v) \<in> set evs \<or> (l, c, v, u) \<in> set evs)"

definition build_inv :: "(string \<times> string \<times> string \<times> string) list \<Rightarrow> graph \<times> station_lines \<Rightarrow> bool" where
  "build_inv evs st =
     (case st of (G, sl) \<Rightarrow>
        keys_agree G \<and> fst ` set (nx_node G) = fst ` set sl \<and> distinct (map fst sl) \<and>
        (\<forall>u v d. lookup G u v = Some d \<longrightarrow>
           (\<exists>l. line d = Some l \<and> l \<in> set (lines_of sl u) \<and> joins evs l u v)) \<and>
        (\<forall>u l. l \<in> set (lines_of sl u) \<longrightarrow> (\<exists>v. joins evs l u v)))"

definition tags_kept :: "(string \<times> string \<times> string \<times> string) list \<Rightarrow> graph \<Rightarrow> bool" where
  "tags_kept evs G =
     (\<forall>l u v. joins evs l u v \<longrightarrow> (\<exists>d. lookup G u v = Some d \<and> line d = Some l))"

section \<open>Termination of the searches\<close>

lemma finite_all_nodes: "finite (all_nodes g)"
  by (auto simp: all_nodes_def)

lemma neighbors_in_all_nodes:
  "neighbors g n = Inr nbrs \<Longrightarrow> n \<in> all_nodes g \<and> set nbrs \<subseteq> all_nodes g"
  unfolding neighbors_def all_nodes_def
  by (auto split: option.splits dest!: map_of_SomeD intro: rev_image_eqI)+

termination dfs_loop
proof (relation "measures [\<lambda>(g, goal, visited, stack). card (all_nodes g - visited),
                           \<lambda>(g, goal, visited, stack). length stack]", goal_cases)
  case 1
  show ?case by simp
next
  case (2 g goal visited current path stack nbrs)
  have "current \<in> all_nodes g"
    using neighbors_in_all_nodes[OF 2(3)] by simp
  then have "card (all_nodes g - insert current visited) < card (all_nodes g - visited)"
    using 2(2) by (intro psubset_card_mono) (auto simp: finite_all_nodes)
  then show ?case by simp
next
  case 3
  then show ?case by simp
qed

lemma bfs_expand_fresh:
  "bfs_expand path nbrs (visited, queue) =
     (visited \<union> set (fresh visited nbrs),
      queue @ map (\<lambda>n. (n, path @ [n])) (fresh visited nbrs))"
  unfolding bfs_expand_def
  by (induction nbrs arbitrary: visited queue) auto

lemma set_fresh: "set (fresh visited nbrs) = set nbrs - visited"
  by (induction nbrs arbitrary: visited) auto

lemma distinct_fresh: "distinct (fresh visited nbrs)"
  by (induction nbrs arbitrary: visited) (auto simp: set_fresh)

termination bfs_loop
proof (relation "measure (\<lambda>(g, goal, visited, queue). card (all_nodes g - visited) + length queue)",
    goal_cases)
  case 1
  show ?case by simp
next
  case (2 g goal visited current path queue nbrs visited' queue')
  let ?F = "fresh visited nbrs"
  have v: "visited' = visited \<union> set ?F" and q: "queue' = queue @ map (\<lambda>n. (n, path @ [n])) ?F"
    using 2 by (simp_all add: bfs_expand_fresh)
  have sub: "set ?F \<subseteq> all_nodes g - visited"
    using neighbors_in_all_nodes[OF 2(2)] by (auto simp: set_fresh)
  have "all_nodes g - visited' = (all_nodes g - visited) - set ?F"
    using v by auto
  then have "card (all_nodes g - visited') = card (all_nodes g - visited) - card (set ?F)"
    using sub by (simp add: card_Diff_subset)
  moreover have "card (set ?F) \<le> card (all_nodes g - visited)"
    using sub by (simp add: card_mono finite_all_nodes)
  moreover have "card (set ?F) = length ?F"
    by (simp add: distinct_card distinct_fresh)
  ultimately show ?case using q by simp
qed

lemma heappop_None: "heappop xs = None \<longleftrightarrow> xs = []"
  by (cases xs) (auto split: option.splits prod.splits if_splits)

lemma heappop_set: "heappop xs = Some (m, rest) \<Longrightarrow> set xs = insert m (set rest)"
  by (induction xs arbitrary: m rest) (auto simp: heappop_None split: option.splits if_splits)

lemma heappop_length: "heappop xs = Some (m, rest) \<Longrightarrow> length xs = Suc (length rest)"
  by (induction xs arbitrary: m rest) (auto simp: heappop_None split: option.splits if_splits)

lemma relax_dist: "relax v d st nbr = Inr st' \<Longrightarrow> dist st' = dist st"
  by (auto simp: relax_def Let_def split: prod.splits option.splits if_splits)

lemma relax_all_dist: "relax_all v d st nbrs = Inr st' \<Longrightarrow> dist st' = dist st"
  by (induction nbrs arbitrary: st) (auto split: sum.splits dest: relax_dist)

termination dijkstra_loop
proof (relation "measures [\<lambda>(g, target, st). card (fst ` set (nx_adj g) - dom (dist st)),
                           \<lambda>(g, target, st). length (fringe st)]", goal_cases)
  case 1
  show ?case by simp
next
  case (2 g target st x2 x y d z c v)
  then show ?case by (auto dest: heappop_length)
next
  case (3 g target st x2 x y d z c v nbrs st')
  have "dist st' = (dist st)(v \<mapsto> d)"
    using relax_all_dist[OF 3(8)] by simp
  moreover have "v \<in> fst ` set (nx_adj g)"
    using 3(7) by (auto dest!: map_of_SomeD intro: rev_image_eqI)
  ultimately have "fst ` set (nx_adj g) - dom (dist st') \<subset> fst ` set (nx_adj g) - dom (dist st)"
    using 3(5) by auto
  then have "card (fst ` set (nx_adj g) - dom (dist st')) < card (fst ` set (nx_adj g) - dom (dist st))"
    by (intro psubset_card_mono) auto
  then show ?case by simp
qed

declare dijkstra_loop.simps [simp del]

section \<open>A path from a station to itself\<close>

text \<open>
  C10. For every graph and every station \<open>s\<close> that is a node of it, \<^verbatim>\<open>dfs_path(graph, s, s)\<close>
  and \<^verbatim>\<open>bfs_path(graph, s, s)\<close> both return the single-node path \<open>[s]\<close>: the first entry
  taken from the stack or the queue is the goal.
\<close>

theorem self_path:
  "contains g s \<Longrightarrow> dfs_path g s s = Inr (Some [s]) \<and> bfs_path g s s = Inr (Some [s])"
  by (simp add: dfs_path_def bfs_path_def)

theorem self_path_witness:
  "contains (fst (create_graph_from_ubahn scenario_a)) ''S3'' \<and>
   dfs_path (fst (create_graph_from_ubahn scenario_a)) ''S3'' ''S3'' = Inr (Some [''S3'']) \<and>
   bfs_path (fst (create_graph_from_ubahn scenario_a)) ''S3'' ''S3'' = Inr (Some [''S3''])"
proof -
  have h: "contains (fst (create_graph_from_ubahn scenario_a)) ''S3''"
    by code_simp
  from self_path[OF h] show ?thesis using h by simp
qed

section \<open>Stations of a one-station line\<close>

text \<open>
  C3. Graph construction is claimed to register every station named in the input as a
  node, a line with a single station included. The construction only ever adds the two
  ends of a pair of consecutive stations, so a line with one station adds nothing: for
  the input with the single line \<open>U1 = [A]\<close> the graph has no node at all and the
  station has no entry in the station-to-lines table.
\<close>

theorem single_station_not_registered:
  "create_graph_from_ubahn single_station = (empty_graph, [], [(''U1'', ''red'')]) \<and>
   \<not> contains (fst (create_graph_from_ubahn single_station)) ''A''"
  by code_simp

section \<open>The transfer-station listing\<close>

lemma transfer_candidates_iff:
  "(s, n, ls) \<in> set (transfer_candidates sl) \<longleftrightarrow>
     (\<exists>lns. (s, lns) \<in> set sl \<and> 1 < card (set lns) \<and> n = card (set lns) \<and> ls = sort (remdups lns))"
  unfolding transfer_candidates_def by (induction sl) auto

lemma transfer_candidates_filter:
  "map fst (filter (\<lambda>x. fst (snd x) = k) (transfer_candidates sl)) =
   map fst (filter (\<lambda>(s, lns). 2 \<le> card (set lns) \<and> card (set lns) = k) sl)"
  unfolding transfer_candidates_def by (induction sl) (auto split: if_splits)

lemma analyze_graph_InrD:
  "analyze_graph G sl = Inr (degrees, ts) \<Longrightarrow>
     ts = sort_key (\<lambda>x. - int (fst (snd x))) (transfer_candidates sl)"
  by (auto simp: analyze_graph_def Let_def split: if_splits)

text \<open>
  C9 (as amended). The transfer-station listing returned by \<^verbatim>\<open>analyze_graph\<close> contains
  exactly the stations with at least two distinct lines, each with its number of distinct
  lines, ordered by that number descending; stations with equal numbers keep the order in
  which they stand in the station-to-lines table (the order of first appearance in the
  input), not the order of their names.
\<close>

theorem transfer_listing:
  assumes "analyze_graph G sl = Inr (degrees, ts)"
  shows "fst ` set ts = {s. \<exists>lns. (s, lns) \<in> set sl \<and> 2 \<le> card (set lns)} \<and>
         (\<forall>(s, n, ls) \<in> set ts. \<exists>lns. (s, lns) \<in> set sl \<and> n = card (set lns)) \<and>
         sorted_wrt (\<lambda>x y. fst (snd x) \<ge> fst (snd y)) ts \<and>
         (\<forall>k. map fst (filter (\<lambda>x. fst (snd x) = k) ts) =
               map fst (filter (\<lambda>(s, lns). 2 \<le> card (set lns) \<and> card (set lns) = k) sl))"
proof -
  let ?key = "\<lambda>x :: string \<times> nat \<times> string list. - int (fst (snd x))"
  have ts: "ts = sort_key ?key (transfer_candidates sl)"
    using assms by (rule analyze_graph_InrD)
  have set_ts: "set ts = set (transfer_candidates sl)"
    by (simp add: ts)
  have a: "fst ` set ts = {s. \<exists>lns. (s, lns) \<in> set sl \<and> 2 \<le> card (set lns)}"
  proof (intro set_eqI iffI)
    fix s assume "s \<in> fst ` set ts"
    then obtain n ls where "(s, n, ls) \<in> set (transfer_candidates sl)"
      unfolding set_ts by force
    then show "s \<in> {s. \<exists>lns. (s, lns) \<in> set sl \<and> 2 \<le> card (set lns)}"
      by (auto simp: transfer_candidates_iff)
  next
    fix s assume "s \<in> {s. \<exists>lns. (s, lns) \<in> set sl \<and> 2 \<le> card (set lns)}"
    then obtain lns where "(s, lns) \<in> set sl" "1 < card (set lns)" by auto
    then have "(s, card (set lns), sort (remdups lns)) \<in> set ts"
      unfolding set_ts transfer_candidates_iff by blast
    then show "s \<in> fst ` set ts" by force
  qed
  have b: "\<forall>(s, n, ls) \<in> set ts. \<exists>lns. (s, lns) \<in> set sl \<and> n = card (set lns)"
    unfolding set_ts by (auto simp: transfer_candidates_iff)
  have "sorted (map ?key ts)"
    unfolding ts by (rule sorted_sort_key)
  then have c: "sorted_wrt (\<lambda>x y. fst (snd x) \<ge> fst (snd y)) ts"
    by (simp add: sorted_map)
  have d: "map fst (filter (\<lambda>x. fst (snd x) = k) ts) =
           map fst (filter (\<lambda>(s, lns). 2 \<le> card (set lns) \<and> card (set lns) = k) sl)" for k
  proof -
    have "filter (\<lambda>x. fst (snd x) = k) ts = filter (\<lambda>x. ?key x = - int k) ts"
      by (rule filter_cong) auto
    also have "\<dots> = filter (\<lambda>x. ?key x = - int k) (transfer_candidates sl)"
      unfolding ts by (rule sort_key_stable)
    also have "\<dots> = filter (\<lambda>x. fst (snd x) = k) (transfer_candidates sl)"
      by (rule filter_cong) auto
    finally show ?thesis by (simp add: transfer_candidates_filter)
  qed
  show ?thesis using a b c d by blast
qed

theorem transfer_listing_witness:
  "analyze_graph (fst (create_graph_from_ubahn tie_network))
     (fst (snd (create_graph_from_ubahn tie_network))) =
     Inr ([(''B'', 1), (''A'', 1)], [(''B'', 2, [''U1'', ''U2'']), (''A'', 2, [''U1'', ''U2''])]) \<and>
   fst ` set [(''B'', 2 :: nat, [''U1'', ''U2'']), (''A'', 2, [''U1'', ''U2''])] =
     {s. \<exists>lns. (s, lns) \<in> set (fst (snd (create_graph_from_ubahn tie_network))) \<and>
          2 \<le> card (set lns)}"
proof -
  have h: "analyze_graph (fst (create_graph_from_ubahn tie_network))
     (fst (snd (create_graph_from_ubahn tie_network))) =
     Inr ([(''B'', 1), (''A'', 1)], [(''B'', 2, [''U1'', ''U2'']), (''A'', 2, [''U1'', ''U2''])])"
    by code_simp
  from transfer_listing[OF h] show ?thesis using h by blast
qed

text \<open>
  C9 as stated fails where two stations have the same number of lines and the one with
  the greater name comes first in the input: with \<open>U1 = [B, A]\<close> and \<open>U2 = [B, A]\<close> the
  listing is \<open>B, A\<close>.
\<close>

theorem transfer_listing_counterexample:
  "(case create_graph_from_ubahn tie_network of (G, sl, cols) \<Rightarrow> analyze_graph G sl) =
     Inr ([(''B'', 1), (''A'', 1)], [(''B'', 2, [''U1'', ''U2'']), (''A'', 2, [''U1'', ''U2''])])
   \<and> \<not> claimed_order [(''B'', 2, [''U1'', ''U2'']), (''A'', 2, [''U1'', ''U2''])]"
  by code_simp

section \<open>Breadth-first search finds a shortest path\<close>

lemma is_path_nonempty: "is_path g p \<Longrightarrow> p \<noteq> []"
  by (cases p) auto

lemma is_path_contains: "is_path g p \<Longrightarrow> v \<in> set p \<Longrightarrow> contains g v"
  by (induction g p rule: is_path.induct) auto

lemma is_path_snoc:
  "is_path g (p @ [w]) \<longleftrightarrow> (if p = [] then contains g w
                              else is_path g p \<and> adjacent g (last p) w \<and> contains g w)"
  by (induction g p rule: is_path.induct) auto

lemma is_path_Cons:
  "is_path g (u # p) \<longleftrightarrow> (if p = [] then contains g u
                            else contains g u \<and> adjacent g u (hd p) \<and> is_path g p)"
  by (cases p) auto

lemma is_path_append:
  "is_path g (p @ u # q) \<Longrightarrow> is_path g (u # q)"
  by (induction g p rule: is_path.induct) (auto simp: is_path_Cons split: if_splits)

lemma neighbors_Inr_iff:
  "neighbors g u = Inr nbrs \<longleftrightarrow> (\<exists>d. map_of (nx_adj g) u = Some d \<and> nbrs = map fst d)"
  by (auto simp: neighbors_def split: option.splits)

lemma adjacent_iff:
  "adjacent g u w \<longleftrightarrow> (\<exists>d. map_of (nx_adj g) u = Some d \<and> w \<in> fst ` set d)"
  by (cases "map_of (nx_adj g) u") (simp_all add: adjacent_def adj_of_def)

lemma neighbors_adjacent:
  "neighbors g u = Inr nbrs \<Longrightarrow> adjacent g u w \<longleftrightarrow> w \<in> set nbrs"
  by (force simp: neighbors_Inr_iff adjacent_iff)

lemma wf_neighbors:
  assumes "wf_graph g" "contains g u"
  obtains nbrs where "neighbors g u = Inr nbrs"
proof -
  from assms have "u \<in> fst ` set (nx_adj g)"
    by (auto simp: wf_graph_def contains_def)
  then obtain d where "map_of (nx_adj g) u = Some d"
    by (metis domD dom_map_of_conv_image_fst)
  then show ?thesis using that by (simp add: neighbors_def)
qed

lemma wf_adjacent_contains:
  assumes "wf_graph g" "adjacent g u w"
  shows "contains g w"
proof -
  from assms(2) obtain d where d: "map_of (nx_adj g) u = Some d" "w \<in> fst ` set d"
    unfolding adjacent_iff by blast
  then have "(u, d) \<in> set (nx_adj g)" by (auto dest: map_of_SomeD)
  with d(2) assms(1) show ?thesis
    unfolding wf_graph_def contains_def by fastforce
qed

lemma path_between_snocD:
  assumes "path_between g s v (q @ [v'])" "q \<noteq> []"
  shows "path_between g s (last q) q \<and> adjacent g (last q) v \<and> v' = v"
  using assms by (auto simp: path_between_def is_path_snoc)

lemma path_between_snocI:
  assumes "path_between g s u p" "adjacent g u w" "contains g w"
  shows "path_between g s w (p @ [w])"
  using assms by (auto simp: path_between_def is_path_snoc dest: is_path_nonempty)

lemma path_between_single:
  "path_between g s v [v'] \<longleftrightarrow> v' = s \<and> v = s \<and> contains g s"
  by (auto simp: path_between_def)

lemma bfs_inv_unvisited:
  assumes inv: "bfs_inv g start goal visited queue"
    and q: "path_between g start v q" and v: "v \<notin> visited"
  shows "\<exists>n p rest. queue = (n, p) # rest \<and> length p < length q"
  using q v
proof (induction q arbitrary: v rule: rev_induct)
  case Nil
  then show ?case by (simp add: path_between_def)
next
  case (snoc x q)
  show ?case
  proof (cases "q = []")
    case True
    with snoc.prems inv show ?thesis
      by (auto simp: path_between_single bfs_inv_def)
  next
    case False
    let ?u = "last q"
    from path_between_snocD[OF snoc.prems(1) False]
    have pq: "path_between g start ?u q" and adj: "adjacent g ?u v" by auto
    show ?thesis
    proof (cases "?u \<in> visited")
      case False
      from snoc.IH[OF pq False] show ?thesis by auto
    next
      case True
      have "?u \<in> fst ` set queue"
        using inv True adj snoc.prems(2) unfolding bfs_inv_def by blast
      then obtain pu where pu: "(?u, pu) \<in> set queue" by force
      then have "shortest_to g start ?u pu"
        using inv unfolding bfs_inv_def by blast
      then have le: "length pu \<le> length q"
        using pq unfolding shortest_to_def by blast
      from pu obtain n p rest where qu: "queue = (n, p) # rest"
        by (cases queue) auto
      have "sorted (map (length \<circ> snd) queue)"
        using inv unfolding bfs_inv_def by blast
      then have "length p \<le> length pu"
        using pu unfolding qu by auto
      with le qu show ?thesis by auto
    qed
  qed
qed

lemma bfs_inv_step:
  assumes wf: "wf_graph g"
    and inv: "bfs_inv g start goal visited ((c, p) # queue)"
    and ng: "c \<noteq> goal"
    and nb: "neighbors g c = Inr nbrs"
  shows "bfs_inv g start goal (visited \<union> set (fresh visited nbrs))
           (queue @ map (\<lambda>n. (n, p @ [n])) (fresh visited nbrs))"
proof -
  let ?F = "fresh visited nbrs"
  let ?new = "map (\<lambda>n. (n, p @ [n])) ?F"
  have F: "set ?F = set nbrs - visited" by (rule set_fresh)
  have cp: "shortest_to g start c p" and cv: "c \<in> visited"
    using inv unfolding bfs_inv_def by auto
  have old: "\<And>n r. (n, r) \<in> set queue \<Longrightarrow> n \<in> visited \<and> shortest_to g start n r"
    using inv unfolding bfs_inv_def by auto
  have new_short: "shortest_to g start w (p @ [w])" if w: "w \<in> set ?F" for w
  proof -
    have adj: "adjacent g c w" using w F neighbors_adjacent[OF nb] by auto
    then have "contains g w" using wf by (rule wf_adjacent_contains[rotated])
    with cp adj have pb: "path_between g start w (p @ [w])"
      unfolding shortest_to_def by (auto intro: path_between_snocI)
    have "length (p @ [w]) \<le> length q" if "path_between g start w q" for q
    proof -
      have "w \<notin> visited" using w F by auto
      from bfs_inv_unvisited[OF inv that this] show ?thesis by auto
    qed
    with pb show ?thesis unfolding shortest_to_def by blast
  qed
  have lens_old: "\<And>n r. (n, r) \<in> set queue \<Longrightarrow> length p \<le> length r \<and> length r \<le> length p + 1"
    using inv unfolding bfs_inv_def by auto
  have sorted_old: "sorted (map (length \<circ> snd) queue)"
    using inv unfolding bfs_inv_def by auto
  have 1: "start \<in> visited \<union> set ?F"
    using inv unfolding bfs_inv_def by auto
  have 2: "\<forall>(n, r) \<in> set (queue @ ?new). n \<in> visited \<union> set ?F \<and> shortest_to g start n r"
    using old new_short by auto
  have 3: "sorted (map (length \<circ> snd) (queue @ ?new))"
  proof -
    have "sorted (map (length \<circ> snd) ?new)"
      by (simp add: sorted_map o_def)
    moreover have "\<forall>x \<in> set queue. \<forall>y \<in> set ?new. length (snd x) \<le> length (snd y)"
      using lens_old by force
    ultimately show ?thesis
      using sorted_old by (simp add: sorted_append)
  qed
  have 4: "\<forall>(n, r) \<in> set (queue @ ?new). \<forall>(m, r') \<in> set (queue @ ?new). length r' \<le> length r + 1"
  proof (clarify)
    fix n r m r'
    assume a: "(n, r) \<in> set (queue @ ?new)" and b: "(m, r') \<in> set (queue @ ?new)"
    have bound: "length p \<le> length x \<and> length x \<le> length p + 1"
      if "(k, x) \<in> set (queue @ ?new)" for k x
      using that lens_old by auto
    from bound[OF a] bound[OF b] show "length r' \<le> length r + 1" by linarith
  qed
  have 5: "\<forall>u \<in> visited \<union> set ?F. u \<notin> fst ` set (queue @ ?new) \<longrightarrow>
             (\<forall>w. adjacent g u w \<longrightarrow> w \<in> visited \<union> set ?F)"
  proof (intro ballI impI allI)
    fix u w
    assume u: "u \<in> visited \<union> set ?F" and nq: "u \<notin> fst ` set (queue @ ?new)"
      and adj: "adjacent g u w"
    have "u \<notin> set ?F" using nq by force
    with u have uv: "u \<in> visited" by auto
    show "w \<in> visited \<union> set ?F"
    proof (cases "u = c")
      case True
      with adj neighbors_adjacent[OF nb] F show ?thesis by auto
    next
      case False
      with nq have "u \<notin> fst ` set ((c, p) # queue)" by auto
      with inv uv adj have "w \<in> visited" unfolding bfs_inv_def by blast
      then show ?thesis by simp
    qed
  qed
  have 6: "goal \<in> visited \<union> set ?F \<longrightarrow> goal \<in> fst ` set (queue @ ?new)"
  proof
    assume "goal \<in> visited \<union> set ?F"
    then show "goal \<in> fst ` set (queue @ ?new)"
    proof
      assume "goal \<in> visited"
      with inv have "goal \<in> fst ` set ((c, p) # queue)" unfolding bfs_inv_def by blast
      with ng show ?thesis by auto
    next
      assume "goal \<in> set ?F"
      then show ?thesis by force
    qed
  qed
  show ?thesis unfolding bfs_inv_def using 1 2 3 4 5 6 by blast
qed

lemma bfs_loop_correct:
  assumes "wf_graph g" "bfs_inv g start goal visited queue" "path_between g start goal q0"
  shows "\<exists>p. bfs_loop g goal visited queue = Inr (Some p) \<and> shortest_to g start goal p"
  using assms
proof (induction g goal visited queue rule: bfs_loop.induct)
  case (1 g goal visited)
  have "goal \<notin> visited" using 1(2) unfolding bfs_inv_def by auto
  from bfs_inv_unvisited[OF 1(2) 1(3) this] show ?case by simp
next
  case (2 g goal visited current path queue)
  have cur: "shortest_to g start current path"
    using 2(3) unfolding bfs_inv_def by auto
  show ?case
  proof (cases "current = goal")
    case True
    with cur show ?thesis by simp
  next
    case False
    have "contains g current"
      using cur unfolding shortest_to_def path_between_def
      by (metis is_path_contains is_path_nonempty last_in_set)
    from wf_neighbors[OF 2(2) this] obtain nbrs where nb: "neighbors g current = Inr nbrs"
      by blast
    let ?F = "fresh visited nbrs"
    have ex: "bfs_expand path nbrs (visited, queue) =
                (visited \<union> set ?F, queue @ map (\<lambda>n. (n, path @ [n])) ?F)"
      by (rule bfs_expand_fresh)
    have "bfs_inv g start goal (visited \<union> set ?F) (queue @ map (\<lambda>n. (n, path @ [n])) ?F)"
      using bfs_inv_step[OF 2(2) 2(3) False nb] .
    from 2(1)[OF False nb ex[symmetric] 2(2) this 2(4)]
    show ?thesis using False nb ex by simp
  qed
qed

lemma dfs_push_eq:
  "dfs_push visited path stack nbrs =
     map (\<lambda>n. (n, path @ [n])) (filter (\<lambda>n. n \<notin> visited) nbrs) @ stack"
proof -
  have "foldr (\<lambda>neighbor st. if neighbor \<notin> visited then (neighbor, path @ [neighbor]) # st else st)
          nbrs stack =
        map (\<lambda>n. (n, path @ [n])) (filter (\<lambda>n. n \<notin> visited) nbrs) @ stack"
    by (induction nbrs) auto
  then show ?thesis
    unfolding dfs_push_def by (simp add: foldr_conv_foldl)
qed

lemma path_between_hd_in: "path_between g s t q \<Longrightarrow> s \<in> set q"
  unfolding path_between_def using is_path_nonempty by fastforce

lemma path_between_contains: "path_between g s t q \<Longrightarrow> contains g s \<and> contains g t"
  unfolding path_between_def
  by (metis is_path_contains is_path_nonempty last_in_set list.set_sel(1))

lemma dfs_inv_push:
  assumes wf: "wf_graph g"
    and inv: "dfs_inv g start goal visited ((c, p) # stack)"
    and ng: "c \<noteq> goal" and nb: "neighbors g c = Inr nbrs"
  shows "dfs_inv g start goal (insert c visited)
           (map (\<lambda>n. (n, p @ [n])) (filter (\<lambda>n. n \<notin> insert c visited) nbrs) @ stack)"
proof -
  let ?V = "insert c visited"
  let ?new = "map (\<lambda>n. (n, p @ [n])) (filter (\<lambda>n. n \<notin> ?V) nbrs)"
  have cp: "path_between g start c p"
    using inv unfolding dfs_inv_def by auto
  have a: "\<forall>(n, r) \<in> set (?new @ stack). path_between g start n r"
  proof (clarify)
    fix n r assume "(n, r) \<in> set (?new @ stack)"
    then consider "n \<in> set nbrs" "r = p @ [n]" | "(n, r) \<in> set stack" by auto
    then show "path_between g start n r"
    proof cases
      case 1
      then have adj: "adjacent g c n" using neighbors_adjacent[OF nb] by simp
      with wf have "contains g n" by (rule wf_adjacent_contains)
      with cp adj show ?thesis unfolding 1(2) by (rule path_between_snocI)
    next
      case 2
      with inv show ?thesis unfolding dfs_inv_def by auto
    qed
  qed
  from inv obtain n r q where w: "(n, r) \<in> set ((c, p) # stack)"
    "path_between g n goal q" "set q \<inter> visited = {}"
    unfolding dfs_inv_def by blast
  have b: "\<exists>(n, r) \<in> set (?new @ stack). \<exists>q. path_between g n goal q \<and> set q \<inter> ?V = {}"
  proof (cases "c \<in> set q")
    case True
    then obtain ys zs where q: "q = ys @ c # zs" and czs: "c \<notin> set zs"
      by (meson split_list_last)
    have lastq: "last q = goal" and pq: "is_path g q"
      using w(2) unfolding path_between_def by auto
    have zs: "zs \<noteq> []" using lastq ng q by auto
    have "is_path g (c # zs)" using pq unfolding q by (rule is_path_append)
    then have adj: "adjacent g c (hd zs)" and pz: "is_path g zs"
      using zs by (auto simp: is_path_Cons)
    have pb: "path_between g (hd zs) goal zs"
      using pz lastq zs unfolding path_between_def q by simp
    have dis: "set zs \<inter> ?V = {}" using w(3) czs unfolding q by auto
    have "hd zs \<in> set zs" using zs by simp
    with dis have "hd zs \<notin> ?V" by blast
    moreover have "hd zs \<in> set nbrs" using adj neighbors_adjacent[OF nb] by simp
    ultimately have "(hd zs, p @ [hd zs]) \<in> set (?new @ stack)" by simp
    with pb dis show ?thesis by blast
  next
    case False
    have "n \<in> set q" using w(2) by (rule path_between_hd_in)
    with False have "n \<noteq> c" by auto
    with w(1) have "(n, r) \<in> set (?new @ stack)" by auto
    moreover have "set q \<inter> ?V = {}" using False w(3) by auto
    ultimately show ?thesis using w(2) by blast
  qed
  show ?thesis unfolding dfs_inv_def using a b by blast
qed

lemma dfs_inv_skip:
  assumes inv: "dfs_inv g start goal visited ((c, p) # stack)" and cv: "c \<in> visited"
  shows "dfs_inv g start goal visited stack"
proof -
  from inv obtain n r q where w: "(n, r) \<in> set ((c, p) # stack)"
    "path_between g n goal q" "set q \<inter> visited = {}"
    unfolding dfs_inv_def by blast
  have "n \<in> set q" using w(2) by (rule path_between_hd_in)
  with w(3) cv have "n \<noteq> c" by auto
  with w(1) have "(n, r) \<in> set stack" by auto
  with w(2,3) inv show ?thesis unfolding dfs_inv_def by auto
qed

lemma dfs_loop_correct:
  assumes "wf_graph g" "dfs_inv g start goal visited stack"
  shows "\<exists>d. dfs_loop g goal visited stack = Inr (Some d) \<and> path_between g start goal d"
  using assms
proof (induction g goal visited stack rule: dfs_loop.induct)
  case (1 g goal visited)
  then show ?case by (simp add: dfs_inv_def)
next
  case (2 g goal visited current path stack)
  have cur: "path_between g start current path"
    using 2(4) unfolding dfs_inv_def by auto
  show ?case
  proof (cases "current = goal")
    case True
    with cur show ?thesis by simp
  next
    case ng: False
    show ?thesis
    proof (cases "current \<in> visited")
      case True
      from 2(2)[OF ng _ 2(3) dfs_inv_skip[OF 2(4) True]] True ng show ?thesis by simp
    next
      case False
      have "contains g current" using cur path_between_contains by blast
      from wf_neighbors[OF 2(3) this] obtain nbrs where nb: "neighbors g current = Inr nbrs"
        by blast
      have "dfs_inv g start goal (insert current visited)
              (dfs_push (insert current visited) path stack nbrs)"
        unfolding dfs_push_eq by (rule dfs_inv_push[OF 2(3) 2(4) ng nb])
      from 2(1)[OF ng False nb 2(3) this] show ?thesis using ng False nb by simp
    qed
  qed
qed

lemma bfs_inv_init:
  assumes "contains g start"
  shows "bfs_inv g start goal {start} [(start, [start])]"
proof -
  have "path_between g start start [start]"
    using assms by (simp add: path_between_def)
  moreover have "length [start] \<le> length q" if "path_between g start start q" for q
    using that is_path_nonempty[of g q] unfolding path_between_def by (cases q) auto
  ultimately have "shortest_to g start start [start]"
    unfolding shortest_to_def by blast
  then show ?thesis unfolding bfs_inv_def by simp
qed

lemma dfs_inv_init:
  assumes "path_between g start goal q"
  shows "dfs_inv g start goal {} [(start, [start])]"
proof -
  have "path_between g start start [start]"
    using path_between_contains[OF assms] by (simp add: path_between_def)
  with assms show ?thesis unfolding dfs_inv_def by auto
qed

text \<open>
  C1. For every graph and every pair of stations \<open>start\<close>, \<open>goal\<close> that are nodes of the
  graph and are joined by some path, \<^verbatim>\<open>bfs_path\<close> returns a path from \<open>start\<close> to \<open>goal\<close>
  whose number of edges is minimal among all such paths; \<^verbatim>\<open>dfs_path\<close> returns a path for
  the same pair as well, and the breadth-first path is never longer than it.
\<close>

theorem bfs_path_shortest:
  assumes "wf_graph g" "contains g start" "contains g goal" "path_between g start goal q"
  shows "\<exists>p. bfs_path g start goal = Inr (Some p) \<and> path_between g start goal p \<and>
             (\<forall>q'. path_between g start goal q' \<longrightarrow> num_edges p \<le> num_edges q') \<and>
             (\<exists>d. dfs_path g start goal = Inr (Some d) \<and> path_between g start goal d \<and>
                  length p \<le> length d)"
proof -
  from bfs_loop_correct[OF assms(1) bfs_inv_init[OF assms(2)] assms(4)]
  obtain p where p: "bfs_loop g goal {start} [(start, [start])] = Inr (Some p)"
    "shortest_to g start goal p" by blast
  from dfs_loop_correct[OF assms(1) dfs_inv_init[OF assms(4)]]
  obtain d where d: "dfs_loop g goal {} [(start, [start])] = Inr (Some d)"
    "path_between g start goal d" by blast
  have "bfs_path g start goal = Inr (Some p)" "dfs_path g start goal = Inr (Some d)"
    using p(1) d(1) assms(2,3) by (simp_all add: bfs_path_def dfs_path_def)
  moreover have "path_between g start goal p"
    and min: "\<forall>q'. path_between g start goal q' \<longrightarrow> length p \<le> length q'"
    using p(2) unfolding shortest_to_def by auto
  moreover have "\<forall>q'. path_between g start goal q' \<longrightarrow> num_edges p \<le> num_edges q'"
    using min unfolding num_edges_def by (auto intro: diff_le_mono)
  moreover have "length p \<le> length d" using min d(2) by blast
  ultimately show ?thesis using d(2) by blast
qed

theorem bfs_path_shortest_witness:
  "wf_graph (fst (create_graph_from_ubahn scenario_a)) \<and>
   contains (fst (create_graph_from_ubahn scenario_a)) ''S1'' \<and>
   contains (fst (create_graph_from_ubahn scenario_a)) ''S5'' \<and>
   path_between (fst (create_graph_from_ubahn scenario_a)) ''S1'' ''S5''
     [''S1'', ''S2'', ''S3'', ''S4'', ''S5''] \<and>
   (\<exists>p. bfs_path (fst (create_graph_from_ubahn scenario_a)) ''S1'' ''S5'' = Inr (Some p) \<and>
        path_between (fst (create_graph_from_ubahn scenario_a)) ''S1'' ''S5'' p \<and>
        (\<forall>q'. path_between (fst (create_graph_from_ubahn scenario_a)) ''S1'' ''S5'' q' \<longrightarrow>
              num_edges p \<le> num_edges q') \<and>
        (\<exists>d. dfs_path (fst (create_graph_from_ubahn scenario_a)) ''S1'' ''S5'' = Inr (Some d) \<and>
             path_between (fst (create_graph_from_ubahn scenario_a)) ''S1'' ''S5'' d \<and>
             length p \<le> length d))"
proof -
  have h1: "wf_graph (fst (create_graph_from_ubahn scenario_a))" by code_simp
  have h2: "contains (fst (create_graph_from_ubahn scenario_a)) ''S1''" by code_simp
  have h3: "contains (fst (create_graph_from_ubahn scenario_a)) ''S5''" by code_simp
  have h4: "path_between (fst (create_graph_from_ubahn scenario_a)) ''S1'' ''S5''
     [''S1'', ''S2'', ''S3'', ''S4'', ''S5'']" by code_simp
  from bfs_path_shortest[OF h1 h2 h3 h4] h1 h2 h3 h4 show ?thesis by blast
qed

section \<open>Dijkstra's search returns a least total distance\<close>

lemma dj_inv_source:
  "dj_inv g s t st X \<Longrightarrow> s \<in> dom (dist st) \<or> (\<exists>c. (0, c, s) \<in> set (fringe st))"
  unfolding dj_inv_def by (elim conjE) assumption

lemma dj_inv_lower:
  "dj_inv g s t st X \<Longrightarrow> \<forall>x d q. dist st x = Some d \<and> path_between g s x q \<longrightarrow> d \<le> path_cost g q"
  unfolding dj_inv_def by (elim conjE) assumption

lemma dj_inv_relaxed:
  "dj_inv g s t st X \<Longrightarrow>
     \<forall>x d nbrs z. dist st x = Some d \<and> x \<notin> X \<and> map_of (nx_adj g) x = Some nbrs \<and> z \<in> set nbrs
          \<longrightarrow> relaxed st d z"
  unfolding dj_inv_def by (elim conjE) assumption

lemma dj_inv_target: "dj_inv g s t st X \<Longrightarrow> t \<notin> dom (dist st)"
  unfolding dj_inv_def by (elim conjE) assumption

lemma dj_inv_mono:
  "dj_inv g s t st X \<Longrightarrow>
     \<forall>x dx d c u. dist st x = Some dx \<and> (d, c, u) \<in> set (fringe st) \<longrightarrow> dx \<le> d"
  unfolding dj_inv_def by (elim conjE) assumption

lemma dj_inv_paths:
  "dj_inv g s t st X \<Longrightarrow>
     \<forall>pm. paths st = Some pm \<longrightarrow>
          (\<forall>(d, c, u) \<in> set (fringe st). u \<in> dom pm) \<and> dom (dist st) \<subseteq> dom pm \<and>
          (\<forall>u p. pm u = Some p \<longrightarrow> path_between g s u p)"
  unfolding dj_inv_def by (elim conjE) assumption

lemma dj_inv_fringe_reach:
  "dj_inv g s t st X \<Longrightarrow> \<forall>(d, c, u) \<in> set (fringe st). \<exists>q. path_between g s u q"
  unfolding dj_inv_def by (elim conjE) assumption

lemma dj_inv_dist_reach:
  "dj_inv g s t st X \<Longrightarrow> \<forall>x \<in> dom (dist st). \<exists>q. path_between g s x q"
  unfolding dj_inv_def by (elim conjE) assumption

lemma dj_inv_seen:
  "dj_inv g s t st X \<Longrightarrow>
     \<forall>u su. seen st u = Some su \<longrightarrow> u \<in> dom (dist st) \<or> (\<exists>c. (su, c, u) \<in> set (fringe st))"
  unfolding dj_inv_def by (elim conjE) assumption

lemma dj_invI:
  assumes "s \<in> dom (dist st) \<or> (\<exists>c. (0, c, s) \<in> set (fringe st))"
    and "\<forall>x d q. dist st x = Some d \<and> path_between g s x q \<longrightarrow> d \<le> path_cost g q"
    and "\<forall>x d nbrs z. dist st x = Some d \<and> x \<notin> X \<and> map_of (nx_adj g) x = Some nbrs \<and> z \<in> set nbrs
          \<longrightarrow> relaxed st d z"
    and "t \<notin> dom (dist st)"
    and "\<forall>x dx d c u. dist st x = Some dx \<and> (d, c, u) \<in> set (fringe st) \<longrightarrow> dx \<le> d"
    and "\<forall>pm. paths st = Some pm \<longrightarrow>
          (\<forall>(d, c, u) \<in> set (fringe st). u \<in> dom pm) \<and> dom (dist st) \<subseteq> dom pm \<and>
          (\<forall>u p. pm u = Some p \<longrightarrow> path_between g s u p)"
    and "\<forall>(d, c, u) \<in> set (fringe st). \<exists>q. path_between g s u q"
    and "\<forall>x \<in> dom (dist st). \<exists>q. path_between g s x q"
    and "\<forall>u su. seen st u = Some su \<longrightarrow> u \<in> dom (dist st) \<or> (\<exists>c. (su, c, u) \<in> set (fringe st))"
  shows "dj_inv g s t st X"
  unfolding dj_inv_def using assms by (intro conjI)

lemma heappop_least: "heappop xs = Some (m, rest) \<Longrightarrow> y \<in> set xs \<Longrightarrow> fst m \<le> fst y"
proof (induction xs arbitrary: m rest y)
  case Nil
  then show ?case by simp
next
  case (Cons x xs)
  show ?case
  proof (cases "heappop xs")
    case None
    then have "xs = []" by (simp add: heappop_None)
    with Cons.prems show ?thesis by auto
  next
    case (Some mr)
    obtain m' rest' where mr: "mr = (m', rest')" by (cases mr)
    have ih: "\<And>y. y \<in> set xs \<Longrightarrow> fst m' \<le> fst y"
      using Cons.IH[of m' rest'] Some mr by simp
    show ?thesis
    proof (cases "entry_less m' x")
      case True
      then have "m = m'" using Cons.prems(1) Some mr by simp
      moreover have "fst m' \<le> fst x" using True by (auto simp: entry_less_def)
      moreover have "y = x \<or> y \<in> set xs" using Cons.prems(2) by simp
      ultimately show ?thesis using ih[of y] by blast
    next
      case False
      then have "m = x" using Cons.prems(1) Some mr by simp
      moreover have "fst x \<le> fst m'" using False by (auto simp: entry_less_def)
      moreover have "y = x \<or> y \<in> set xs" using Cons.prems(2) by simp
      ultimately show ?thesis using ih[of y] by force
    qed
  qed
qed

lemma path_cost_snoc:
  "p \<noteq> [] \<Longrightarrow> path_cost g (p @ [w]) = path_cost g p + step_cost g (last p) w"
  by (induction g p rule: path_cost.induct) auto

lemma adjacent_edge:
  assumes "adjacent g u v"
  obtains nbrs e where "map_of (nx_adj g) u = Some nbrs" "map_of nbrs v = Some e" "(v, e) \<in> set nbrs"
proof -
  from assms obtain nbrs where n: "map_of (nx_adj g) u = Some nbrs" "v \<in> fst ` set nbrs"
    unfolding adjacent_iff by blast
  then obtain e where "map_of nbrs v = Some e"
    by (metis domD dom_map_of_conv_image_fst)
  with n that show ?thesis by (meson map_of_SomeD)
qed

lemma nonneg_step_cost:
  assumes "nonneg_costs g"
  shows "0 \<le> step_cost g u v"
proof (cases "map_of (adj_of g u) v")
  case None
  then show ?thesis by (simp add: step_cost_def)
next
  case (Some e)
  then have "(v, e) \<in> set (adj_of g u)" by (rule map_of_SomeD)
  then obtain nbrs where "map_of (nx_adj g) u = Some nbrs" "(v, e) \<in> set nbrs"
    by (cases "map_of (nx_adj g) u") (auto simp: adj_of_def)
  then have "(u, nbrs) \<in> set (nx_adj g)" "(v, e) \<in> set nbrs" by (auto dest: map_of_SomeD)
  with assms have "0 \<le> cost e" unfolding nonneg_costs_def by fastforce
  with Some show ?thesis by (simp add: step_cost_def)
qed

lemma nonneg_path_cost: "nonneg_costs g \<Longrightarrow> 0 \<le> path_cost g p"
  by (induction g p rule: path_cost.induct) (auto simp: nonneg_step_cost)

lemma dj_inv_unfinished:
  assumes nn: "nonneg_costs g" and inv: "dj_inv g s t st {}"
    and q: "path_between g s x q" and x: "x \<notin> dom (dist st)"
  shows "\<exists>d' c y. (d', c, y) \<in> set (fringe st) \<and> d' \<le> path_cost g q"
  using q x
proof (induction q arbitrary: x rule: rev_induct)
  case Nil
  then show ?case by (simp add: path_between_def)
next
  case (snoc x' q)
  show ?case
  proof (cases "q = []")
    case True
    with snoc.prems have "x = s" by (simp add: path_between_single)
    with snoc.prems(2) dj_inv_source[OF inv] obtain c where "(0, c, s) \<in> set (fringe st)"
      by blast
    moreover have "path_cost g (q @ [x']) = 0" using True by simp
    ultimately have "(0, c, s) \<in> set (fringe st) \<and> 0 \<le> path_cost g (q @ [x'])" by simp
    then show ?thesis by blast
  next
    case False
    let ?u = "last q"
    from path_between_snocD[OF snoc.prems(1) False]
    have pq: "path_between g s ?u q" and adj: "adjacent g ?u x" and xx: "x' = x" by auto
    have pc: "path_cost g (q @ [x']) = path_cost g q + step_cost g ?u x"
      using False xx by (simp add: path_cost_snoc)
    show ?thesis
    proof (cases "dist st ?u")
      case None
      then have "?u \<notin> dom (dist st)" by auto
      from snoc.IH[OF pq this] obtain d' c y where
        "(d', c, y) \<in> set (fringe st)" "d' \<le> path_cost g q" by blast
      moreover have "0 \<le> step_cost g ?u x" using nn by (rule nonneg_step_cost)
      ultimately have "(d', c, y) \<in> set (fringe st) \<and> d' \<le> path_cost g (q @ [x'])"
        unfolding pc by simp
      then show ?thesis by blast
    next
      case (Some du)
      have du: "du \<le> path_cost g q"
        using dj_inv_lower[OF inv] Some pq by blast
      from adj obtain nbrs e where e: "map_of (nx_adj g) ?u = Some nbrs"
        "map_of nbrs x = Some e" "(x, e) \<in> set nbrs"
        by (rule adjacent_edge)
      have "relaxed st du (x, e)"
        using dj_inv_relaxed[OF inv] Some e(1,3) by blast
      with snoc.prems(2) obtain d' c where
        d': "(d', c, x) \<in> set (fringe st)" "d' \<le> du + cost e"
        unfolding relaxed_def by auto
      have "step_cost g ?u x = cost e"
        using e(1,2) by (simp add: step_cost_def adj_of_def)
      with d' du have "(d', c, x) \<in> set (fringe st) \<and> d' \<le> path_cost g (q @ [x'])"
        unfolding pc by simp
      then show ?thesis by blast
    qed
  qed
qed

lemma relaxed_mono:
  assumes "dist st' = dist st" "set (fringe st) \<subseteq> set (fringe st')" "relaxed st d z"
  shows "relaxed st' d z"
proof (cases "fst z \<in> dom (dist st)")
  case True
  then show ?thesis using assms(1) by (simp add: relaxed_def)
next
  case False
  with assms(3) obtain d' c where "(d', c, fst z) \<in> set (fringe st)" "d' \<le> d + cost (snd z)"
    unfolding relaxed_def by blast
  with assms(2) have "(d', c, fst z) \<in> set (fringe st') \<and> d' \<le> d + cost (snd z)" by blast
  then show ?thesis unfolding relaxed_def by blast
qed

lemma dj_inv_push:
  assumes inv: "dj_inv g s t st {v}"
    and d': "dist st' = dist st"
    and f': "fringe st' = fringe st @ [(vu, c, u)]"
    and s': "seen st' = (seen st)(u \<mapsto> vu)"
    and p': "(paths st = None \<and> paths st' = None) \<or>
             (\<exists>pm pv. paths st = Some pm \<and> pm v = Some pv \<and> paths st' = Some (pm(u \<mapsto> pv @ [u])))"
    and dv: "dist st v = Some d"
    and maxd: "\<forall>x dx. dist st x = Some dx \<longrightarrow> dx \<le> d"
    and vu: "d \<le> vu"
    and adj: "adjacent g v u" and cu: "contains g u"
  shows "dj_inv g s t st' {v}"
proof (rule dj_invI)
  have sub: "set (fringe st) \<subseteq> set (fringe st')" using f' by auto
  show "s \<in> dom (dist st') \<or> (\<exists>c. (0, c, s) \<in> set (fringe st'))"
    using dj_inv_source[OF inv] d' sub by auto
  show "\<forall>x d q. dist st' x = Some d \<and> path_between g s x q \<longrightarrow> d \<le> path_cost g q"
    using dj_inv_lower[OF inv] d' by simp
  show "\<forall>x d nbrs z. dist st' x = Some d \<and> x \<notin> {v} \<and> map_of (nx_adj g) x = Some nbrs \<and>
          z \<in> set nbrs \<longrightarrow> relaxed st' d z"
  proof (intro allI impI)
    fix x dx nbrs z
    assume a: "dist st' x = Some dx \<and> x \<notin> {v} \<and> map_of (nx_adj g) x = Some nbrs \<and> z \<in> set nbrs"
    then have "relaxed st dx z" using dj_inv_relaxed[OF inv] d' by metis
    then show "relaxed st' dx z" by (rule relaxed_mono[OF d' sub])
  qed
  show "t \<notin> dom (dist st')" using dj_inv_target[OF inv] d' by simp
  show "\<forall>x dx d c u. dist st' x = Some dx \<and> (d, c, u) \<in> set (fringe st') \<longrightarrow> dx \<le> d"
  proof (intro allI impI)
    fix x dx d0 c0 u0
    assume a: "dist st' x = Some dx \<and> (d0, c0, u0) \<in> set (fringe st')"
    then have dx: "dist st x = Some dx" using d' by simp
    from a have "(d0, c0, u0) \<in> set (fringe st) \<or> d0 = vu" using f' by auto
    then show "dx \<le> d0"
    proof
      assume "(d0, c0, u0) \<in> set (fringe st)"
      with dx dj_inv_mono[OF inv] show ?thesis by blast
    next
      assume "d0 = vu"
      moreover have "dx \<le> d" using maxd dx by blast
      ultimately show ?thesis using vu by simp
    qed
  qed
  have vreach: "\<exists>q. path_between g s v q"
    using dj_inv_dist_reach[OF inv] dv by blast
  have ureach: "\<exists>q. path_between g s u q"
  proof -
    from vreach obtain q where "path_between g s v q" by blast
    then have "path_between g s u (q @ [u])" using adj cu by (rule path_between_snocI)
    then show ?thesis by blast
  qed
  show "\<forall>(d, c, u) \<in> set (fringe st'). \<exists>q. path_between g s u q"
  proof (clarify)
    fix d0 c0 u0 assume "(d0, c0, u0) \<in> set (fringe st')"
    then have "(d0, c0, u0) \<in> set (fringe st) \<or> u0 = u" using f' by auto
    then show "\<exists>q. path_between g s u0 q"
      using dj_inv_fringe_reach[OF inv] ureach by blast
  qed
  show "\<forall>x \<in> dom (dist st'). \<exists>q. path_between g s x q"
    using dj_inv_dist_reach[OF inv] d' by simp
  show "\<forall>u su. seen st' u = Some su \<longrightarrow>
          u \<in> dom (dist st') \<or> (\<exists>c. (su, c, u) \<in> set (fringe st'))"
  proof (intro allI impI)
    fix u0 su assume a: "seen st' u0 = Some su"
    show "u0 \<in> dom (dist st') \<or> (\<exists>c. (su, c, u0) \<in> set (fringe st'))"
    proof (cases "u0 = u")
      case True
      with a s' have "su = vu" by simp
      with True f' show ?thesis by auto
    next
      case False
      with a s' have "seen st u0 = Some su" by simp
      with dj_inv_seen[OF inv] have "u0 \<in> dom (dist st) \<or> (\<exists>c. (su, c, u0) \<in> set (fringe st))"
        by blast
      with d' sub show ?thesis by auto
    qed
  qed
  show "\<forall>pm. paths st' = Some pm \<longrightarrow>
          (\<forall>(d, c, u) \<in> set (fringe st'). u \<in> dom pm) \<and> dom (dist st') \<subseteq> dom pm \<and>
          (\<forall>u p. pm u = Some p \<longrightarrow> path_between g s u p)"
  proof (intro allI impI)
    fix pm' assume pm': "paths st' = Some pm'"
    with p' obtain pm pv where pm: "paths st = Some pm" "pm v = Some pv" "pm' = pm(u \<mapsto> pv @ [u])"
      by auto
    from dj_inv_paths[OF inv] pm(1)
    have o1: "\<forall>(d, c, u) \<in> set (fringe st). u \<in> dom pm"
      and o2: "dom (dist st) \<subseteq> dom pm"
      and o3: "\<forall>u p. pm u = Some p \<longrightarrow> path_between g s u p"
      by blast+
    have "u0 \<in> dom pm'" if "(d0, c0, u0) \<in> set (fringe st')" for d0 c0 u0
    proof -
      from that have "(d0, c0, u0) \<in> set (fringe st) \<or> u0 = u" using f' by auto
      then show ?thesis using o1 pm(3) by auto
    qed
    then have n1: "\<forall>(d, c, u) \<in> set (fringe st'). u \<in> dom pm'" by blast
    have n2: "dom (dist st') \<subseteq> dom pm'" using o2 d' pm(3) by auto
    have n3: "\<forall>u p. pm' u = Some p \<longrightarrow> path_between g s u p"
    proof (intro allI impI)
      fix u0 p assume a: "pm' u0 = Some p"
      show "path_between g s u0 p"
      proof (cases "u0 = u")
        case True
        with a pm(3) have "p = pv @ [u]" by simp
        moreover have "path_between g s v pv" using o3 pm(2) by blast
        ultimately show ?thesis using adj cu True by (simp add: path_between_snocI)
      next
        case False
        with a pm(3) have "pm u0 = Some p" by simp
        with o3 show ?thesis by blast
      qed
    qed
    show "(\<forall>(d, c, u) \<in> set (fringe st'). u \<in> dom pm') \<and> dom (dist st') \<subseteq> dom pm' \<and>
          (\<forall>u p. pm' u = Some p \<longrightarrow> path_between g s u p)"
      by (rule conjI[OF n1 conjI[OF n2 n3]])
  qed
qed

lemma nonneg_cost_edge:
  assumes "nonneg_costs g" "map_of (nx_adj g) v = Some nbrs" "(u, e) \<in> set nbrs"
  shows "0 \<le> cost e"
proof -
  have "(v, nbrs) \<in> set (nx_adj g)" using assms(2) by (rule map_of_SomeD)
  with assms(1,3) show ?thesis unfolding nonneg_costs_def by fastforce
qed

lemma edge_adjacent:
  assumes "map_of (nx_adj g) v = Some nbrs" "(u, e) \<in> set nbrs"
  shows "adjacent g v u"
  unfolding adjacent_iff using assms by force

lemma relax_step:
  assumes wf: "wf_graph g" and nn: "nonneg_costs g"
    and inv: "dj_inv g s t st {v}" and dv: "dist st v = Some d"
    and maxd: "\<forall>x dx. dist st x = Some dx \<longrightarrow> dx \<le> d"
    and nb: "map_of (nx_adj g) v = Some nbrs" and mem: "(u, e) \<in> set nbrs"
  shows "\<exists>st'. relax v d st (u, e) = Inr st' \<and> dj_inv g s t st' {v} \<and> relaxed st' d (u, e) \<and>
           dist st' = dist st \<and> set (fringe st) \<subseteq> set (fringe st') \<and>
           (paths st' = None \<longleftrightarrow> paths st = None)"
proof -
  have ce: "0 \<le> cost e" using nn nb mem by (rule nonneg_cost_edge)
  have adj: "adjacent g v u" using nb mem by (rule edge_adjacent)
  have cu: "contains g u" using wf adj by (rule wf_adjacent_contains)
  let ?vu = "d + cost e"
  show ?thesis
  proof (cases "dist st u")
    case (Some ud)
    then have "ud \<le> d" using maxd by blast
    then have "\<not> ?vu < ud" using ce by simp
    then have "relax v d st (u, e) = Inr st"
      using Some by (simp add: relax_def)
    moreover have "relaxed st d (u, e)" using Some by (auto simp: relaxed_def)
    ultimately show ?thesis using inv by simp
  next
    case None
    show ?thesis
    proof (cases "case seen st u of None \<Rightarrow> True | Some s \<Rightarrow> ?vu < s")
      case False
      then obtain su where su: "seen st u = Some su" "su \<le> ?vu"
        by (cases "seen st u") auto
      have r: "relax v d st (u, e) = Inr st"
        using None False by (simp add: relax_def)
      from dj_inv_seen[OF inv] su(1) None obtain c where "(su, c, u) \<in> set (fringe st)"
        by blast
      with su(2) have "relaxed st d (u, e)" unfolding relaxed_def by auto
      with r inv show ?thesis by simp
    next
      case True
      let ?st1 = "st\<lparr>seen := (seen st)(u \<mapsto> ?vu),
                      fringe := fringe st @ [(?vu, counter st, u)],
                      counter := counter st + 1\<rparr>"
      show ?thesis
      proof (cases "paths st")
        case pn: None
        have r: "relax v d st (u, e) = Inr ?st1"
          using None True pn by (simp add: relax_def Let_def)
        have "dj_inv g s t ?st1 {v}"
          by (rule dj_inv_push[OF inv _ _ _ _ dv maxd _ adj cu, where vu="?vu" and c="counter st"])
             (use pn ce in simp_all)
        moreover have "relaxed ?st1 d (u, e)" unfolding relaxed_def by auto
        ultimately show ?thesis using r pn by auto
      next
        case (Some pm)
        have "v \<in> dom pm" using dj_inv_paths[OF inv] Some dv by blast
        then obtain pv where pv: "pm v = Some pv" by blast
        let ?st2 = "?st1\<lparr>paths := Some (pm(u \<mapsto> pv @ [u]))\<rparr>"
        have r: "relax v d st (u, e) = Inr ?st2"
          using None True Some pv by (simp add: relax_def Let_def)
        have "dj_inv g s t ?st2 {v}"
          by (rule dj_inv_push[OF inv _ _ _ _ dv maxd _ adj cu, where vu="?vu" and c="counter st"])
             (use Some pv ce in simp_all)
        moreover have "relaxed ?st2 d (u, e)" unfolding relaxed_def by auto
        ultimately show ?thesis using r Some by auto
      qed
    qed
  qed
qed

lemma relax_all_step:
  assumes wf: "wf_graph g" and nn: "nonneg_costs g"
    and inv: "dj_inv g s t st {v}" and dv: "dist st v = Some d"
    and maxd: "\<forall>x dx. dist st x = Some dx \<longrightarrow> dx \<le> d"
    and nb: "map_of (nx_adj g) v = Some nbrs" and sub: "set rest \<subseteq> set nbrs"
  shows "\<exists>st'. relax_all v d st rest = Inr st' \<and> dj_inv g s t st' {v} \<and>
           (\<forall>z \<in> set rest. relaxed st' d z) \<and> dist st' = dist st \<and>
           set (fringe st) \<subseteq> set (fringe st') \<and> (paths st' = None \<longleftrightarrow> paths st = None)"
  using inv dv maxd sub
proof (induction rest arbitrary: st)
  case Nil
  then show ?case by simp
next
  case (Cons z rest)
  obtain u e where z: "z = (u, e)" by (cases z)
  have mem: "(u, e) \<in> set nbrs" using Cons.prems(4) z by simp
  from relax_step[OF wf nn Cons.prems(1) Cons.prems(2) Cons.prems(3) nb mem]
  obtain st1 where st1: "relax v d st (u, e) = Inr st1" "dj_inv g s t st1 {v}"
    "relaxed st1 d (u, e)" "dist st1 = dist st" "set (fringe st) \<subseteq> set (fringe st1)"
    "paths st1 = None \<longleftrightarrow> paths st = None" by auto
  have dv1: "dist st1 v = Some d" and maxd1: "\<forall>x dx. dist st1 x = Some dx \<longrightarrow> dx \<le> d"
    using st1(4) Cons.prems(2,3) by simp_all
  have sub1: "set rest \<subseteq> set nbrs" using Cons.prems(4) by simp
  from Cons.IH[OF st1(2) dv1 maxd1 sub1]
  obtain st' where st': "relax_all v d st1 rest = Inr st'" "dj_inv g s t st' {v}"
    "\<forall>z \<in> set rest. relaxed st' d z" "dist st' = dist st1"
    "set (fringe st1) \<subseteq> set (fringe st')" "paths st' = None \<longleftrightarrow> paths st1 = None" by auto
  have "relaxed st' d z" unfolding z using st'(4) st'(5) st1(3) by (rule relaxed_mono)
  with st'(3) have all: "\<forall>z \<in> set (z # rest). relaxed st' d z" by simp
  have r: "relax_all v d st (z # rest) = Inr st'" using st1(1) st'(1) z by simp
  have d: "dist st' = dist st" using st'(4) st1(4) by simp
  have f: "set (fringe st) \<subseteq> set (fringe st')" using st'(5) st1(5) by blast
  have p: "paths st' = None \<longleftrightarrow> paths st = None" using st'(6) st1(6) by simp
  show ?case by (intro exI[of _ st'] conjI r st'(2) all d f p)
qed

lemma dj_inv_close:
  assumes inv: "dj_inv g s t st {v}" and dv: "dist st v = Some d"
    and nb: "map_of (nx_adj g) v = Some nbrs" and all: "\<forall>z \<in> set nbrs. relaxed st d z"
  shows "dj_inv g s t st {}"
proof (rule dj_invI)
  show "\<forall>x d nbrs z. dist st x = Some d \<and> x \<notin> {} \<and> map_of (nx_adj g) x = Some nbrs \<and>
          z \<in> set nbrs \<longrightarrow> relaxed st d z"
  proof (intro allI impI)
    fix x dx nbrs' z
    assume a: "dist st x = Some dx \<and> x \<notin> {} \<and> map_of (nx_adj g) x = Some nbrs' \<and> z \<in> set nbrs'"
    show "relaxed st dx z"
    proof (cases "x = v")
      case True
      with a dv nb all show ?thesis by auto
    next
      case False
      then have "x \<notin> {v}" by simp
      with a dj_inv_relaxed[OF inv] show ?thesis by metis
    qed
  qed
qed (use inv in \<open>simp_all add: dj_inv_source dj_inv_lower dj_inv_target dj_inv_mono dj_inv_paths
      dj_inv_fringe_reach dj_inv_dist_reach dj_inv_seen\<close>)

lemma pop_lower:
  assumes nn: "nonneg_costs g" and inv: "dj_inv g s t st {}"
    and pop: "heappop (fringe st) = Some ((d, c, v), rest)"
    and v: "v \<notin> dom (dist st)" and q: "path_between g s v q"
  shows "d \<le> path_cost g q"
proof -
  from dj_inv_unfinished[OF nn inv q v] obtain d' c' y where
    e: "(d', c', y) \<in> set (fringe st)" "d' \<le> path_cost g q" by blast
  from heappop_least[OF pop e(1)] have "d \<le> d'" by simp
  with e(2) show ?thesis by simp
qed

lemma dj_inv_skip:
  assumes inv: "dj_inv g s t st {}"
    and pop: "heappop (fringe st) = Some ((d, c, v), rest)"
    and v: "v \<in> dom (dist st)"
  shows "dj_inv g s t (st\<lparr>fringe := rest\<rparr>) {}"
proof (rule dj_invI)
  let ?st = "st\<lparr>fringe := rest\<rparr>"
  have F: "set (fringe st) = insert (d, c, v) (set rest)" using pop by (rule heappop_set)
  have keep: "(d', c', y) \<in> set rest" if "(d', c', y) \<in> set (fringe st)" "y \<notin> dom (dist st)"
    for d' c' y using that v F by auto
  show "s \<in> dom (dist ?st) \<or> (\<exists>c. (0, c, s) \<in> set (fringe ?st))"
    using dj_inv_source[OF inv] keep by fastforce
  show "\<forall>x d q. dist ?st x = Some d \<and> path_between g s x q \<longrightarrow> d \<le> path_cost g q"
    using dj_inv_lower[OF inv] by simp
  show "\<forall>x d nbrs z. dist ?st x = Some d \<and> x \<notin> {} \<and> map_of (nx_adj g) x = Some nbrs \<and>
          z \<in> set nbrs \<longrightarrow> relaxed ?st d z"
  proof (intro allI impI)
    fix x dx nbrs z
    assume a: "dist ?st x = Some dx \<and> x \<notin> {} \<and> map_of (nx_adj g) x = Some nbrs \<and> z \<in> set nbrs"
    then have "dist st x = Some dx \<and> map_of (nx_adj g) x = Some nbrs \<and> z \<in> set nbrs" by simp
    then have r: "relaxed st dx z" using dj_inv_relaxed[OF inv] by blast
    show "relaxed ?st dx z"
    proof (cases "fst z \<in> dom (dist st)")
      case True
      then show ?thesis by (simp add: relaxed_def)
    next
      case False
      with r obtain d' c' where "(d', c', fst z) \<in> set (fringe st)" "d' \<le> dx + cost (snd z)"
        unfolding relaxed_def by blast
      with keep[OF _ False] have "(d', c', fst z) \<in> set rest \<and> d' \<le> dx + cost (snd z)" by blast
      then show ?thesis unfolding relaxed_def by auto
    qed
  qed
  show "t \<notin> dom (dist ?st)" using dj_inv_target[OF inv] by simp
  show "\<forall>x dx d c u. dist ?st x = Some dx \<and> (d, c, u) \<in> set (fringe ?st) \<longrightarrow> dx \<le> d"
    using dj_inv_mono[OF inv] F by simp blast
  show "\<forall>pm. paths ?st = Some pm \<longrightarrow>
          (\<forall>(d, c, u) \<in> set (fringe ?st). u \<in> dom pm) \<and> dom (dist ?st) \<subseteq> dom pm \<and>
          (\<forall>u p. pm u = Some p \<longrightarrow> path_between g s u p)"
    using dj_inv_paths[OF inv] F by simp
  show "\<forall>(d, c, u) \<in> set (fringe ?st). \<exists>q. path_between g s u q"
    using dj_inv_fringe_reach[OF inv] F by simp
  show "\<forall>x \<in> dom (dist ?st). \<exists>q. path_between g s x q"
    using dj_inv_dist_reach[OF inv] by simp
  show "\<forall>u su. seen ?st u = Some su \<longrightarrow>
          u \<in> dom (dist ?st) \<or> (\<exists>c. (su, c, u) \<in> set (fringe ?st))"
  proof (intro allI impI)
    fix u su assume "seen ?st u = Some su"
    then have "u \<in> dom (dist st) \<or> (\<exists>c. (su, c, u) \<in> set (fringe st))"
      using dj_inv_seen[OF inv] by simp
    then show "u \<in> dom (dist ?st) \<or> (\<exists>c. (su, c, u) \<in> set (fringe ?st))"
      using keep by fastforce
  qed
qed

lemma dj_inv_finalise:
  assumes nn: "nonneg_costs g" and inv: "dj_inv g s t st {}"
    and pop: "heappop (fringe st) = Some ((d, c, v), rest)"
    and v: "v \<notin> dom (dist st)" and vt: "v \<noteq> t"
  shows "dj_inv g s t (st\<lparr>fringe := rest, dist := (dist st)(v \<mapsto> d)\<rparr>) {v}"
proof (rule dj_invI)
  let ?st = "st\<lparr>fringe := rest, dist := (dist st)(v \<mapsto> d)\<rparr>"
  have F: "set (fringe st) = insert (d, c, v) (set rest)" using pop by (rule heappop_set)
  have keep: "(d', c', y) \<in> set rest" if "(d', c', y) \<in> set (fringe st)" "y \<noteq> v"
    for d' c' y using that F by auto
  have vreach: "\<exists>q. path_between g s v q"
    using dj_inv_fringe_reach[OF inv] F by auto
  show "s \<in> dom (dist ?st) \<or> (\<exists>c. (0, c, s) \<in> set (fringe ?st))"
  proof (cases "s = v")
    case True
    then show ?thesis by simp
  next
    case False
    with dj_inv_source[OF inv] keep show ?thesis by fastforce
  qed
  show "\<forall>x d q. dist ?st x = Some d \<and> path_between g s x q \<longrightarrow> d \<le> path_cost g q"
  proof (intro allI impI)
    fix x dx q assume a: "dist ?st x = Some dx \<and> path_between g s x q"
    show "dx \<le> path_cost g q"
    proof (cases "x = v")
      case True
      with a have "dx = d" "path_between g s v q" by simp_all
      with pop_lower[OF nn inv pop v] show ?thesis by simp
    next
      case False
      with a have "dist st x = Some dx \<and> path_between g s x q" by simp
      with dj_inv_lower[OF inv] show ?thesis by blast
    qed
  qed
  show "\<forall>x d nbrs z. dist ?st x = Some d \<and> x \<notin> {v} \<and> map_of (nx_adj g) x = Some nbrs \<and>
          z \<in> set nbrs \<longrightarrow> relaxed ?st d z"
  proof (intro allI impI)
    fix x dx nbrs z
    assume a: "dist ?st x = Some dx \<and> x \<notin> {v} \<and> map_of (nx_adj g) x = Some nbrs \<and> z \<in> set nbrs"
    then have "dist st x = Some dx \<and> map_of (nx_adj g) x = Some nbrs \<and> z \<in> set nbrs"
      by (auto split: if_splits)
    then have r: "relaxed st dx z" using dj_inv_relaxed[OF inv] by blast
    show "relaxed ?st dx z"
    proof (cases "fst z \<in> dom (dist st) \<or> fst z = v")
      case True
      then show ?thesis by (auto simp: relaxed_def)
    next
      case False
      with r obtain d' c' where "(d', c', fst z) \<in> set (fringe st)" "d' \<le> dx + cost (snd z)"
        unfolding relaxed_def by blast
      with keep False have "(d', c', fst z) \<in> set rest \<and> d' \<le> dx + cost (snd z)" by blast
      then show ?thesis unfolding relaxed_def by auto
    qed
  qed
  show "t \<notin> dom (dist ?st)" using dj_inv_target[OF inv] vt by simp
  show "\<forall>x dx d c u. dist ?st x = Some dx \<and> (d, c, u) \<in> set (fringe ?st) \<longrightarrow> dx \<le> d"
  proof (intro allI impI)
    fix x dx d0 c0 u0
    assume a: "dist ?st x = Some dx \<and> (d0, c0, u0) \<in> set (fringe ?st)"
    then have mem: "(d0, c0, u0) \<in> set (fringe st)" using F by simp
    show "dx \<le> d0"
    proof (cases "x = v")
      case True
      with a have "dx = d" by simp
      with heappop_least[OF pop mem] show ?thesis by simp
    next
      case False
      with a have "dist st x = Some dx" by simp
      with dj_inv_mono[OF inv] mem show ?thesis by blast
    qed
  qed
  show "\<forall>pm. paths ?st = Some pm \<longrightarrow>
          (\<forall>(d, c, u) \<in> set (fringe ?st). u \<in> dom pm) \<and> dom (dist ?st) \<subseteq> dom pm \<and>
          (\<forall>u p. pm u = Some p \<longrightarrow> path_between g s u p)"
    using dj_inv_paths[OF inv] F by auto
  show "\<forall>(d, c, u) \<in> set (fringe ?st). \<exists>q. path_between g s u q"
    using dj_inv_fringe_reach[OF inv] F by simp
  show "\<forall>x \<in> dom (dist ?st). \<exists>q. path_between g s x q"
    using dj_inv_dist_reach[OF inv] vreach by auto
  show "\<forall>u su. seen ?st u = Some su \<longrightarrow>
          u \<in> dom (dist ?st) \<or> (\<exists>c. (su, c, u) \<in> set (fringe ?st))"
  proof (intro allI impI)
    fix u su assume "seen ?st u = Some su"
    then have "u \<in> dom (dist st) \<or> (\<exists>c. (su, c, u) \<in> set (fringe st))"
      using dj_inv_seen[OF inv] by simp
    then show "u \<in> dom (dist ?st) \<or> (\<exists>c. (su, c, u) \<in> set (fringe ?st))"
      using keep by (cases "u = v") fastforce+
  qed
qed

lemma pop_max:
  assumes inv: "dj_inv g s t st {}"
    and pop: "heappop (fringe st) = Some ((d, c, v), rest)"
  shows "\<forall>x dx. ((dist st)(v \<mapsto> d)) x = Some dx \<longrightarrow> dx \<le> d"
proof (intro allI impI)
  fix x dx assume a: "((dist st)(v \<mapsto> d)) x = Some dx"
  have mem: "(d, c, v) \<in> set (fringe st)" using heappop_set[OF pop] by simp
  show "dx \<le> d"
  proof (cases "x = v")
    case True
    with a show ?thesis by simp
  next
    case False
    with a have "dist st x = Some dx" by simp
    with dj_inv_mono[OF inv] mem show ?thesis by blast
  qed
qed

lemma dijkstra_loop_correct:
  assumes "wf_graph g" "nonneg_costs g" "dj_inv g s t st {}"
  shows "\<exists>st'. dijkstra_loop g t st = Inr st' \<and> (paths st' = None \<longleftrightarrow> paths st = None) \<and>
           dj_result g s t st'"
  using assms
proof (induction g t st rule: dijkstra_loop.induct)
  case (1 g t st)
  note wf = 1(3) and nn = 1(4) and inv = 1(5)
  show ?case
  proof (cases "heappop (fringe st)")
    case None
    then have emp: "fringe st = []" by (simp add: heappop_None)
    have tn: "dist st t = None" using dj_inv_target[OF inv] by auto
    have "\<not> (\<exists>q. path_between g s t q)"
    proof
      assume "\<exists>q. path_between g s t q"
      then obtain q where "path_between g s t q" by blast
      from dj_inv_unfinished[OF nn inv this dj_inv_target[OF inv]] emp show False by simp
    qed
    then have "dj_result g s t st" using tn by (simp add: dj_result_def)
    moreover have "dijkstra_loop g t st = Inr st"
      using None by (subst dijkstra_loop.simps) simp
    ultimately show ?thesis by simp
  next
    case (Some x2)
    obtain d c v rest where x2: "x2 = ((d, c, v), rest)" by (cases x2) auto
    have pop: "heappop (fringe st) = Some ((d, c, v), rest)" using Some x2 by simp
    have mem: "(d, c, v) \<in> set (fringe st)" using heappop_set[OF pop] by simp
    show ?thesis
    proof (cases "v \<in> dom (dist st)")
      case True
      have eq: "dijkstra_loop g t st = dijkstra_loop g t (st\<lparr>fringe := rest\<rparr>)"
        using pop True by (subst dijkstra_loop.simps) simp
      from "1.IH"(1)[OF pop refl refl refl True wf nn dj_inv_skip[OF inv pop True]]
      show ?thesis unfolding eq by simp
    next
      case False
      let ?st1 = "st\<lparr>fringe := rest, dist := (dist st)(v \<mapsto> d)\<rparr>"
      obtain qv where qv: "path_between g s v qv"
        using dj_inv_fringe_reach[OF inv] mem by auto
      show ?thesis
      proof (cases "v = t")
        case True
        have eq: "dijkstra_loop g t st = Inr ?st1"
          using pop False True by (subst dijkstra_loop.simps) simp
        have lower: "\<forall>q. path_between g s t q \<longrightarrow> d \<le> path_cost g q"
          using pop_lower[OF nn inv pop False] True by blast
        have pths: "\<forall>pm. paths ?st1 = Some pm \<longrightarrow> (\<exists>p. pm t = Some p \<and> path_between g s t p)"
        proof (intro allI impI)
          fix pm assume "paths ?st1 = Some pm"
          then have pm: "paths st = Some pm" by simp
          with dj_inv_paths[OF inv] mem have "v \<in> dom pm" by blast
          then obtain p where "pm v = Some p" by blast
          moreover from this dj_inv_paths[OF inv] pm have "path_between g s v p" by blast
          ultimately show "\<exists>p. pm t = Some p \<and> path_between g s t p" using True by simp
        qed
        have "dj_result g s t ?st1"
          unfolding dj_result_def using True qv lower pths by auto
        then show ?thesis unfolding eq by simp
      next
        case vt: False
        have "contains g v" using qv path_between_contains by blast
        then have "v \<in> fst ` set (nx_adj g)" using wf by (auto simp: wf_graph_def contains_def)
        then obtain nbrs where nb: "map_of (nx_adj g) v = Some nbrs"
          by (metis domD dom_map_of_conv_image_fst)
        have inv1: "dj_inv g s t ?st1 {v}" by (rule dj_inv_finalise[OF nn inv pop False vt])
        have dv: "dist ?st1 v = Some d" by simp
        have maxd: "\<forall>x dx. dist ?st1 x = Some dx \<longrightarrow> dx \<le> d"
          using pop_max[OF inv pop] by simp
        from relax_all_step[OF wf nn inv1 dv maxd nb subset_refl]
        obtain st' where st': "relax_all v d ?st1 nbrs = Inr st'" "dj_inv g s t st' {v}"
          "\<forall>z \<in> set nbrs. relaxed st' d z" "dist st' = dist ?st1"
          "paths st' = None \<longleftrightarrow> paths ?st1 = None" by auto
        have "dist st' v = Some d" using st'(4) by simp
        then have inv': "dj_inv g s t st' {}" using st'(2) nb st'(3) by (intro dj_inv_close)
        have eq: "dijkstra_loop g t st = dijkstra_loop g t st'"
          using pop False vt nb st'(1) by (subst dijkstra_loop.simps) simp
        from "1.IH"(2)[OF pop refl refl refl False vt nb st'(1) wf nn inv']
        show ?thesis unfolding eq using st'(5) by simp
      qed
    qed
  qed
qed

lemma dj_inv_init:
  assumes "contains g s" "s \<noteq> t"
  shows "dj_inv g s t (initial_state s b) {}"
proof (rule dj_invI)
  have p: "path_between g s s [s]" using assms(1) by (simp add: path_between_def)
  show "\<forall>(d, c, u) \<in> set (fringe (initial_state s b)). \<exists>q. path_between g s u q"
    using p by (auto simp: initial_state_def)
  show "\<forall>pm. paths (initial_state s b) = Some pm \<longrightarrow>
          (\<forall>(d, c, u) \<in> set (fringe (initial_state s b)). u \<in> dom pm) \<and>
          dom (dist (initial_state s b)) \<subseteq> dom pm \<and>
          (\<forall>u p. pm u = Some p \<longrightarrow> path_between g s u p)"
    using p by (auto simp: initial_state_def split: if_splits)
qed (simp_all add: initial_state_def)

lemma edge_weight_adjacent:
  assumes "all_weighted g" "adjacent g u v"
  shows "\<exists>w. edge_weight g u v = Inr w \<and> step_cost g u v = w"
proof -
  from assms(2) obtain nbrs e where e: "map_of (nx_adj g) u = Some nbrs" "map_of nbrs v = Some e"
    "(v, e) \<in> set nbrs" by (rule adjacent_edge)
  have "(u, nbrs) \<in> set (nx_adj g)" using e(1) by (rule map_of_SomeD)
  with assms(1) e(3) have "weight e \<noteq> None" unfolding all_weighted_def by fastforce
  then obtain w where w: "weight e = Some w" by blast
  then have "edge_weight g u v = Inr w" using e by (simp add: edge_weight_def)
  moreover have "step_cost g u v = w" using e w by (simp add: step_cost_def adj_of_def cost_def)
  ultimately show ?thesis by blast
qed

lemma edge_details_path:
  "all_weighted g \<Longrightarrow> is_path g p \<Longrightarrow> \<exists>ds. edge_details g p = Inr ds"
proof (induction g p rule: edge_details.induct)
  case (1 g u v rest)
  then have "adjacent g u v" "is_path g (v # rest)" by simp_all
  with 1 edge_weight_adjacent[of g u v] show ?case by (auto split: sum.splits)
qed simp_all

lemma weighted_distance_path:
  "all_weighted g \<Longrightarrow> is_path g p \<Longrightarrow> weighted_distance g acc p = Inr (acc + path_cost g p)"
proof (induction g acc p rule: weighted_distance.induct)
  case (1 g acc u v rest)
  then have a: "adjacent g u v" "is_path g (v # rest)" by simp_all
  from edge_weight_adjacent[OF 1(2) a(1)] obtain w where
    w: "edge_weight g u v = Inr w" "step_cost g u v = w" by blast
  with 1 a show ?case by (simp add: add.assoc)
qed simp_all

lemma dijkstra_path_reachable:
  assumes wf: "wf_graph g" and nn: "nonneg_costs g" and q: "path_between g s t q"
  shows "\<exists>p. dijkstra_path g s t = Inr p \<and> path_between g s t p"
proof -
  have cs: "contains g s" using q path_between_contains by blast
  show ?thesis
  proof (cases "t = s")
    case True
    then show ?thesis using cs by (simp add: dijkstra_path_def path_between_def)
  next
    case False
    then have "s \<noteq> t" by simp
    from dijkstra_loop_correct[OF wf nn dj_inv_init[OF cs this, of True]]
    obtain st' where st': "dijkstra_loop g t (initial_state s True) = Inr st'"
      "paths st' = None \<longleftrightarrow> paths (initial_state s True) = None" "dj_result g s t st'" by auto
    from st'(2) obtain pm where pm: "paths st' = Some pm" by (auto simp: initial_state_def)
    from st'(3) q obtain d p where "dist st' t = Some d" "pm t = Some p" "path_between g s t p"
      unfolding dj_result_def using pm by (cases "dist st' t") auto
    then show ?thesis using cs False st'(1) pm by (simp add: dijkstra_path_def)
  qed
qed

lemma dijkstra_path_length_reachable:
  assumes wf: "wf_graph g" and nn: "nonneg_costs g" and q: "path_between g s t q"
  shows "\<exists>d. dijkstra_path_length g s t = Inr d \<and> (\<forall>q. path_between g s t q \<longrightarrow> d \<le> path_cost g q)"
proof -
  have cs: "contains g s" using q path_between_contains by blast
  show ?thesis
  proof (cases "s = t")
    case True
    then show ?thesis using cs nn by (simp add: dijkstra_path_length_def nonneg_path_cost)
  next
    case False
    from dijkstra_loop_correct[OF wf nn dj_inv_init[OF cs this, of False]]
    obtain st' where st': "dijkstra_loop g t (initial_state s False) = Inr st'"
      "dj_result g s t st'" by auto
    from st'(2) q obtain d where "dist st' t = Some d"
      "\<forall>q. path_between g s t q \<longrightarrow> d \<le> path_cost g q"
      unfolding dj_result_def by (cases "dist st' t") auto
    then show ?thesis using cs False st'(1) by (simp add: dijkstra_path_length_def)
  qed
qed

lemma dijkstra_path_unreachable:
  assumes wf: "wf_graph g" and nn: "nonneg_costs g" and q: "\<not> connected_pair g s t"
  shows "dijkstra_path g s t = Inl NodeNotFound \<or> dijkstra_path g s t = Inl NetworkXNoPath"
proof (cases "contains g s")
  case False
  then show ?thesis by (simp add: dijkstra_path_def)
next
  case cs: True
  have ne: "s \<noteq> t"
  proof
    assume "s = t"
    then have "path_between g s t [s]" using cs by (simp add: path_between_def)
    with q show False unfolding connected_pair_def by blast
  qed
  from dijkstra_loop_correct[OF wf nn dj_inv_init[OF cs ne, of True]]
  obtain st' where st': "dijkstra_loop g t (initial_state s True) = Inr st'"
    "dj_result g s t st'" by auto
  have "dist st' t = None"
    using st'(2) q unfolding dj_result_def connected_pair_def by (cases "dist st' t") auto
  then show ?thesis using cs ne st'(1) by (auto simp: dijkstra_path_def)
qed

lemma dijkstra_le_every_path:
  assumes wf: "wf_graph g" and aw: "all_weighted g" and nn: "nonneg_costs g"
    and q: "path_between g start goal q"
  shows "\<exists>path total details.
           dijkstra_shortest_path g start goal = Inr (Some path, Some total, Some details) \<and>
           (\<forall>p. path_between g start goal p \<longrightarrow>
                (\<exists>c. bfs_weighted_distance g p = Inr c \<and> total \<le> c))"
proof -
  from dijkstra_path_reachable[OF wf nn q] obtain path where
    path: "dijkstra_path g start goal = Inr path" "path_between g start goal path" by blast
  from dijkstra_path_length_reachable[OF wf nn q] obtain total where
    total: "dijkstra_path_length g start goal = Inr total"
    "\<forall>q. path_between g start goal q \<longrightarrow> total \<le> path_cost g q" by blast
  from edge_details_path[OF aw] path(2) obtain details where
    details: "edge_details g path = Inr details" unfolding path_between_def by blast
  have res: "dijkstra_shortest_path g start goal = Inr (Some path, Some total, Some details)"
    using path(1) total(1) details by (simp add: dijkstra_shortest_path_def)
  have "\<exists>c. bfs_weighted_distance g p = Inr c \<and> total \<le> c" if "path_between g start goal p" for p
  proof -
    have "bfs_weighted_distance g p = Inr (path_cost g p)"
      using weighted_distance_path[OF aw, of p 0] that
      unfolding bfs_weighted_distance_def path_between_def by simp
    with total(2) that show ?thesis by blast
  qed
  with res show ?thesis by blast
qed

lemma bfs_path_complete:
  assumes "wf_graph g" "path_between g start goal q"
  shows "\<exists>p. bfs_path g start goal = Inr (Some p) \<and> path_between g start goal p"
proof -
  have c: "contains g start" "contains g goal"
    using path_between_contains[OF assms(2)] by simp_all
  from bfs_loop_correct[OF assms(1) bfs_inv_init[OF c(1)] assms(2)]
  show ?thesis using c by (auto simp: bfs_path_def shortest_to_def)
qed

text \<open>
  C2. For every weighted graph whose edge weights are all non-negative and every connected
  pair \<open>start\<close>, \<open>goal\<close>, the total distance returned by \<^verbatim>\<open>dijkstra_shortest_path\<close> is at
  most the sum of the edge weights along the path returned by the breadth-first query for
  the same pair, and indeed along every path from \<open>start\<close> to \<open>goal\<close> (so also along
  the path of the library's unweighted query that \<^verbatim>\<open>compare_with_bfs\<close> uses).
\<close>

theorem dijkstra_le_bfs:
  assumes "wf_graph g" "all_weighted g" "nonneg_costs g"
    and "contains g start" "contains g goal" "connected_pair g start goal"
  shows "\<exists>path total details bp c.
           dijkstra_shortest_path g start goal = Inr (Some path, Some total, Some details) \<and>
           bfs_path g start goal = Inr (Some bp) \<and>
           bfs_weighted_distance g bp = Inr c \<and> total \<le> c \<and>
           (\<forall>p. path_between g start goal p \<longrightarrow>
                (\<exists>c'. bfs_weighted_distance g p = Inr c' \<and> total \<le> c'))"
proof -
  from assms(6) obtain q where q: "path_between g start goal q"
    unfolding connected_pair_def by blast
  from dijkstra_le_every_path[OF assms(1-3) q] obtain path total details where
    d: "dijkstra_shortest_path g start goal = Inr (Some path, Some total, Some details)"
    "\<forall>p. path_between g start goal p \<longrightarrow> (\<exists>c. bfs_weighted_distance g p = Inr c \<and> total \<le> c)"
    by blast
  from bfs_path_complete[OF assms(1) q] obtain bp where
    bp: "bfs_path g start goal = Inr (Some bp)" "path_between g start goal bp" by blast
  from d(2) bp(2) obtain c where "bfs_weighted_distance g bp = Inr c" "total \<le> c" by blast
  with d bp(1) show ?thesis by blast
qed

lemma connected_pairI: "path_between g s t q \<Longrightarrow> connected_pair g s t"
  unfolding connected_pair_def by blast

theorem dijkstra_le_bfs_witness:
  "wf_graph scenario_c \<and> all_weighted scenario_c \<and> nonneg_costs scenario_c \<and>
   contains scenario_c ''A'' \<and> contains scenario_c ''D'' \<and>
   connected_pair scenario_c ''A'' ''D'' \<and>
   (\<exists>path total details bp c.
      dijkstra_shortest_path scenario_c ''A'' ''D'' = Inr (Some path, Some total, Some details) \<and>
      bfs_path scenario_c ''A'' ''D'' = Inr (Some bp) \<and>
      bfs_weighted_distance scenario_c bp = Inr c \<and> total \<le> c \<and>
      (\<forall>p. path_between scenario_c ''A'' ''D'' p \<longrightarrow>
           (\<exists>c'. bfs_weighted_distance scenario_c p = Inr c' \<and> total \<le> c')))"
proof -
  have h1: "wf_graph scenario_c" by code_simp
  have h2: "all_weighted scenario_c" by code_simp
  have h3: "nonneg_costs scenario_c" by code_simp
  have h4: "contains scenario_c ''A''" by code_simp
  have h5: "contains scenario_c ''D''" by code_simp
  have "path_between scenario_c ''A'' ''D'' [''A'', ''B'', ''D'']" by code_simp
  then have h6: "connected_pair scenario_c ''A'' ''D''" by (rule connected_pairI)
  from dijkstra_le_bfs[OF h1 h2 h3 h4 h5 h6] h1 h2 h3 h4 h5 h6 show ?thesis by blast
qed

section \<open>Queries without a result\<close>

lemma dfs_loop_sound:
  assumes "wf_graph g" "\<forall>(n, p) \<in> set stack. path_between g start n p"
  shows "dfs_loop g goal visited stack = Inr None \<or>
         (\<exists>d. dfs_loop g goal visited stack = Inr (Some d) \<and> path_between g start goal d)"
  using assms
proof (induction g goal visited stack rule: dfs_loop.induct)
  case (1 g goal visited)
  then show ?case by simp
next
  case (2 g goal visited current path stack)
  have cur: "path_between g start current path" and rest: "\<forall>(n, p) \<in> set stack. path_between g start n p"
    using 2(4) by auto
  show ?case
  proof (cases "current = goal")
    case True
    with cur show ?thesis by simp
  next
    case ng: False
    show ?thesis
    proof (cases "current \<in> visited")
      case True
      from 2(2)[OF ng _ 2(3) rest] True ng show ?thesis by simp
    next
      case False
      have "contains g current" using cur path_between_contains by blast
      from wf_neighbors[OF 2(3) this] obtain nbrs where nb: "neighbors g current = Inr nbrs"
        by blast
      have "\<forall>(n, p) \<in> set (dfs_push (insert current visited) path stack nbrs).
              path_between g start n p"
      proof (clarify)
        fix n r assume "(n, r) \<in> set (dfs_push (insert current visited) path stack nbrs)"
        then consider "n \<in> set nbrs" "r = path @ [n]" | "(n, r) \<in> set stack"
          unfolding dfs_push_eq by auto
        then show "path_between g start n r"
        proof cases
          case 1
          then have adj: "adjacent g current n" using neighbors_adjacent[OF nb] by simp
          with 2(3) have "contains g n" by (rule wf_adjacent_contains)
          with cur adj show ?thesis unfolding 1(2) by (rule path_between_snocI)
        next
          case 2
          with rest show ?thesis by auto
        qed
      qed
      from 2(1)[OF ng False nb 2(3) this] show ?thesis using ng False nb by simp
    qed
  qed
qed

lemma bfs_loop_sound:
  assumes "wf_graph g" "\<forall>(n, p) \<in> set queue. path_between g start n p"
  shows "bfs_loop g goal visited queue = Inr None \<or>
         (\<exists>d. bfs_loop g goal visited queue = Inr (Some d) \<and> path_between g start goal d)"
  using assms
proof (induction g goal visited queue rule: bfs_loop.induct)
  case (1 g goal visited)
  then show ?case by simp
next
  case (2 g goal visited current path queue)
  have cur: "path_between g start current path" and rest: "\<forall>(n, p) \<in> set queue. path_between g start n p"
    using 2(3) by auto
  show ?case
  proof (cases "current = goal")
    case True
    with cur show ?thesis by simp
  next
    case False
    have "contains g current" using cur path_between_contains by blast
    from wf_neighbors[OF 2(2) this] obtain nbrs where nb: "neighbors g current = Inr nbrs"
      by blast
    let ?F = "fresh visited nbrs"
    have ex: "bfs_expand path nbrs (visited, queue) =
                (visited \<union> set ?F, queue @ map (\<lambda>n. (n, path @ [n])) ?F)"
      by (rule bfs_expand_fresh)
    have "\<forall>(n, p) \<in> set (queue @ map (\<lambda>n. (n, path @ [n])) ?F). path_between g start n p"
    proof (clarify)
      fix n r assume "(n, r) \<in> set (queue @ map (\<lambda>n. (n, path @ [n])) ?F)"
      then consider "n \<in> set nbrs" "r = path @ [n]" | "(n, r) \<in> set queue"
        by (auto simp: set_fresh)
      then show "path_between g start n r"
      proof cases
        case 1
        then have adj: "adjacent g current n" using neighbors_adjacent[OF nb] by simp
        with 2(2) have "contains g n" by (rule wf_adjacent_contains)
        with cur adj show ?thesis unfolding 1(2) by (rule path_between_snocI)
      next
        case 2
        with rest show ?thesis by auto
      qed
    qed
    from 2(1)[OF False nb ex[symmetric] 2(2) this] show ?thesis using False nb ex by simp
  qed
qed

lemma dfs_path_unreachable:
  assumes "wf_graph g" "\<not> connected_pair g start goal"
  shows "dfs_path g start goal = Inr None"
proof (cases "contains g start \<and> contains g goal")
  case False
  then show ?thesis by (auto simp: dfs_path_def)
next
  case True
  then have "\<forall>(n, p) \<in> set [(start, [start])]. path_between g start n p"
    by (simp add: path_between_def)
  from dfs_loop_sound[OF assms(1) this, of goal "{}"] assms(2) True
  show ?thesis unfolding connected_pair_def dfs_path_def by auto
qed

lemma bfs_path_unreachable:
  assumes "wf_graph g" "\<not> connected_pair g start goal"
  shows "bfs_path g start goal = Inr None"
proof (cases "contains g start \<and> contains g goal")
  case False
  then show ?thesis by (auto simp: bfs_path_def)
next
  case True
  then have "\<forall>(n, p) \<in> set [(start, [start])]. path_between g start n p"
    by (simp add: path_between_def)
  from bfs_loop_sound[OF assms(1) this, of goal "{start}"] assms(2) True
  show ?thesis unfolding connected_pair_def bfs_path_def by auto
qed

lemma dijkstra_shortest_path_unreachable:
  assumes "wf_graph g" "nonneg_costs g" "\<not> connected_pair g start goal"
  shows "dijkstra_shortest_path g start goal = Inr (None, None, None)"
  using dijkstra_path_unreachable[OF assms]
  by (auto simp: dijkstra_shortest_path_def no_result_def)

lemma not_contains_not_connected:
  "\<not> contains g start \<or> \<not> contains g goal \<Longrightarrow> \<not> connected_pair g start goal"
  unfolding connected_pair_def using path_between_contains by blast

lemma bfs_None_not_connected:
  assumes "wf_graph g" "bfs_path g start goal = Inr None"
  shows "\<not> connected_pair g start goal"
proof
  assume "connected_pair g start goal"
  then obtain q where "path_between g start goal q" unfolding connected_pair_def by blast
  from bfs_path_complete[OF assms(1) this] assms(2) show False by simp
qed

text \<open>
  C7 (as amended). For every graph (with non-negative costs, for the weighted query) and
  every pair \<open>start\<close>, \<open>goal\<close>: when \<open>start\<close> or \<open>goal\<close> is not a station of the graph, and
  also when both are stations but no path joins them, \<^verbatim>\<open>dfs_path\<close> and \<^verbatim>\<open>bfs_path\<close> return
  \<^verbatim>\<open>None\<close> and \<^verbatim>\<open>dijkstra_shortest_path\<close> returns \<^verbatim>\<open>(None, None, None)\<close>. The two kinds of
  failure give the same result; a caller cannot tell them apart from it.
\<close>

theorem failures_share_one_result:
  assumes "wf_graph g" "nonneg_costs g"
    and "\<not> contains g start \<or> \<not> contains g goal \<or>
         (contains g start \<and> contains g goal \<and> \<not> connected_pair g start goal)"
  shows "dfs_path g start goal = Inr None \<and> bfs_path g start goal = Inr None \<and>
         dijkstra_shortest_path g start goal = Inr (None, None, None)"
proof -
  have nc: "\<not> connected_pair g start goal"
    using assms(3) not_contains_not_connected by blast
  show ?thesis
    using dfs_path_unreachable[OF assms(1) nc] bfs_path_unreachable[OF assms(1) nc]
      dijkstra_shortest_path_unreachable[OF assms(1,2) nc] by simp
qed

theorem failures_share_one_result_witness:
  "wf_graph (fst (create_graph_from_ubahn scenario_b)) \<and>
   nonneg_costs (fst (create_graph_from_ubahn scenario_b)) \<and>
   \<not> contains (fst (create_graph_from_ubahn scenario_b)) ''X'' \<and>
   contains (fst (create_graph_from_ubahn scenario_b)) ''A'' \<and>
   contains (fst (create_graph_from_ubahn scenario_b)) ''D'' \<and>
   \<not> connected_pair (fst (create_graph_from_ubahn scenario_b)) ''A'' ''D'' \<and>
   dfs_path (fst (create_graph_from_ubahn scenario_b)) ''A'' ''X'' = Inr None \<and>
   bfs_path (fst (create_graph_from_ubahn scenario_b)) ''A'' ''X'' = Inr None \<and>
   dijkstra_shortest_path (fst (create_graph_from_ubahn scenario_b)) ''A'' ''X'' = Inr (None, None, None) \<and>
   dfs_path (fst (create_graph_from_ubahn scenario_b)) ''A'' ''D'' = Inr None \<and>
   bfs_path (fst (create_graph_from_ubahn scenario_b)) ''A'' ''D'' = Inr None \<and>
   dijkstra_shortest_path (fst (create_graph_from_ubahn scenario_b)) ''A'' ''D'' = Inr (None, None, None)"
proof -
  let ?G = "fst (create_graph_from_ubahn scenario_b)"
  have h1: "wf_graph ?G" by code_simp
  have h2: "nonneg_costs ?G" by code_simp
  have h3: "\<not> contains ?G ''X''" by code_simp
  have h4: "contains ?G ''A''" "contains ?G ''D''" by code_simp+
  have "bfs_path ?G ''A'' ''D'' = Inr None" by code_simp
  then have h5: "\<not> connected_pair ?G ''A'' ''D''" by (rule bfs_None_not_connected[OF h1])
  have a: "\<not> contains ?G ''A'' \<or> \<not> contains ?G ''X'' \<or>
         (contains ?G ''A'' \<and> contains ?G ''X'' \<and> \<not> connected_pair ?G ''A'' ''X'')"
    using h3 by simp
  have b: "\<not> contains ?G ''A'' \<or> \<not> contains ?G ''D'' \<or>
         (contains ?G ''A'' \<and> contains ?G ''D'' \<and> \<not> connected_pair ?G ''A'' ''D'')"
    using h4 h5 by simp
  from failures_share_one_result[OF h1 h2 a] failures_share_one_result[OF h1 h2 b]
    h1 h2 h3 h4 h5
  show ?thesis by simp
qed

text \<open>
  C7 as stated asks for two distinct results. In the network of two lines without a common
  station, a query for the unknown station \<open>X\<close> and a query between the two components
  return equal results, for each of the three searches.
\<close>

theorem failure_kinds_counterexample:
  "\<not> contains (fst (create_graph_from_ubahn scenario_b)) ''X'' \<and>
   contains (fst (create_graph_from_ubahn scenario_b)) ''A'' \<and>
   contains (fst (create_graph_from_ubahn scenario_b)) ''D'' \<and>
   \<not> connected_pair (fst (create_graph_from_ubahn scenario_b)) ''A'' ''D'' \<and>
   dfs_path (fst (create_graph_from_ubahn scenario_b)) ''A'' ''X'' =
     dfs_path (fst (create_graph_from_ubahn scenario_b)) ''A'' ''D'' \<and>
   bfs_path (fst (create_graph_from_ubahn scenario_b)) ''A'' ''X'' =
     bfs_path (fst (create_graph_from_ubahn scenario_b)) ''A'' ''D'' \<and>
   dijkstra_shortest_path (fst (create_graph_from_ubahn scenario_b)) ''A'' ''X'' =
     dijkstra_shortest_path (fst (create_graph_from_ubahn scenario_b)) ''A'' ''D''"
proof -
  let ?G = "fst (create_graph_from_ubahn scenario_b)"
  have h1: "wf_graph ?G" by code_simp
  have b: "bfs_path ?G ''A'' ''D'' = Inr None" by code_simp
  then have h5: "\<not> connected_pair ?G ''A'' ''D''" by (rule bfs_None_not_connected[OF h1])
  have "\<not> contains ?G ''X''" "contains ?G ''A''" "contains ?G ''D''" by code_simp+
  moreover have "dfs_path ?G ''A'' ''X'' = Inr None" "dfs_path ?G ''A'' ''D'' = Inr None"
    "bfs_path ?G ''A'' ''X'' = Inr None"
    "dijkstra_shortest_path ?G ''A'' ''X'' = Inr (None, None, None)"
    "dijkstra_shortest_path ?G ''A'' ''D'' = Inr (None, None, None)" by code_simp+
  ultimately show ?thesis using h5 b by simp
qed

section \<open>The weights assigned\<close>

lemma round_half_even_of_int: "round_half_even (of_int n) = n"
  by (simp add: round_half_even_def)

lemma round_half_even_bounds:
  "\<lfloor>y\<rfloor> \<le> round_half_even y \<and> round_half_even y \<le> \<lfloor>y\<rfloor> + 1"
  by (simp add: round_half_even_def Let_def)

lemma round_half_even_mono:
  assumes "x \<le> y"
  shows "round_half_even x \<le> round_half_even y"
proof (cases "\<lfloor>x\<rfloor> = \<lfloor>y\<rfloor>")
  case True
  have "x - of_int \<lfloor>y\<rfloor> \<le> y - of_int \<lfloor>y\<rfloor>" using assms by simp
  then show ?thesis
    unfolding round_half_even_def Let_def True by (auto split: if_splits)
next
  case False
  have "\<lfloor>x\<rfloor> \<le> \<lfloor>y\<rfloor>" using assms by (rule floor_mono)
  with False have "\<lfloor>x\<rfloor> + 1 \<le> \<lfloor>y\<rfloor>" by simp
  with round_half_even_bounds[of x] round_half_even_bounds[of y] show ?thesis by linarith
qed

lemma py_round2_mono: "x \<le> y \<Longrightarrow> py_round2 x \<le> py_round2 y"
  unfolding py_round2_def
  by (simp add: round_half_even_mono divide_right_mono)

lemma py_round2_idem: "py_round2 (py_round2 x) = py_round2 x"
  unfolding py_round2_def by (simp add: round_half_even_of_int)

lemma py_round2_zero: "py_round2 0 = 0"
  by (simp add: py_round2_def round_half_even_def)

lemma uniform_range:
  assumes "lo \<le> hi" "0 \<le> fst (rng_random R s)" "fst (rng_random R s) \<le> 1"
  shows "lo \<le> fst (uniform R lo hi s) \<and> fst (uniform R lo hi s) \<le> hi"
proof -
  obtain r s' where rs: "rng_random R s = (r, s')" by (cases "rng_random R s")
  have r: "0 \<le> r" "r \<le> 1" using assms(2,3) rs by simp_all
  have "0 \<le> (hi - lo) * r" using assms(1) r(1) by simp
  moreover have "(hi - lo) * r \<le> (hi - lo) * 1"
    using assms(1) r(2) by (intro mult_left_mono) simp_all
  ultimately show ?thesis using rs by (simp add: uniform_def)
qed

lemma lookup_iff:
  "lookup g u v = Some d \<longleftrightarrow> (\<exists>nbrs. map_of (nx_adj g) u = Some nbrs \<and> map_of nbrs v = Some d)"
  by (cases "map_of (nx_adj g) u") (simp_all add: lookup_def adj_of_def)

lemma lookup_set_weight:
  "lookup (set_weight a b w g) u v =
     (case lookup g u v of
        None \<Rightarrow> None
      | Some d \<Rightarrow> Some (if (u = a \<and> v = b) \<or> (u = b \<and> v = a) then d\<lparr>weight := Some w\<rparr> else d))"
  unfolding lookup_def adj_of_def set_weight_def
  by (auto simp: map_of_map_entry split: option.splits)

lemma assign_weight_step:
  "assign_weight R lo hi (G, s) (a, b) =
     (set_weight a b (py_round2 (fst (uniform R lo hi s))) G, snd (uniform R lo hi s))"
  by (simp add: assign_weight_def split: prod.splits)

lemma assign_fold_None:
  "lookup G u v = None \<Longrightarrow> lookup (fst (foldl (assign_weight R lo hi) (G, s) E)) u v = None"
proof (induction E arbitrary: G s)
  case Nil
  then show ?case by simp
next
  case (Cons e E)
  obtain a b where e: "e = (a, b)" by (cases e)
  show ?case
    unfolding e foldl_Cons assign_weight_step
    by (rule Cons.IH) (simp add: lookup_set_weight Cons.prems)
qed

lemma assign_fold_ok:
  assumes P: "\<And>x. P (py_round2 (fst (uniform R lo hi x)))"
  shows "lookup (fst (foldl (assign_weight R lo hi) (G, s) E)) u v = Some d \<Longrightarrow>
         (u, v) \<in> set E \<or> (v, u) \<in> set E \<or> (\<exists>d0. lookup G u v = Some d0 \<and> weight_ok P d0) \<Longrightarrow>
         weight_ok P d"
proof (induction E arbitrary: G s)
  case Nil
  then show ?case by simp
next
  case (Cons e E)
  obtain a b where e: "e = (a, b)" by (cases e)
  let ?w = "py_round2 (fst (uniform R lo hi s))"
  let ?G1 = "set_weight a b ?w G"
  let ?s1 = "snd (uniform R lo hi s)"
  have res: "lookup (fst (foldl (assign_weight R lo hi) (?G1, ?s1) E)) u v = Some d"
    using Cons.prems(1) unfolding e foldl_Cons assign_weight_step .
  have "lookup ?G1 u v \<noteq> None"
  proof
    assume "lookup ?G1 u v = None"
    from assign_fold_None[OF this, of R lo hi ?s1 E] res show False by simp
  qed
  then obtain d0 where d0: "lookup G u v = Some d0"
    by (cases "lookup G u v") (simp_all add: lookup_set_weight)
  have "(u, v) \<in> set E \<or> (v, u) \<in> set E \<or> (\<exists>d1. lookup ?G1 u v = Some d1 \<and> weight_ok P d1)"
  proof (cases "(u, v) \<in> set E \<or> (v, u) \<in> set E")
    case True
    then show ?thesis by blast
  next
    case False
    with Cons.prems(2) have "(u = a \<and> v = b) \<or> (u = b \<and> v = a) \<or> weight_ok P d0"
      using d0 unfolding e by auto
    then have "\<exists>d1. lookup ?G1 u v = Some d1 \<and> weight_ok P d1"
      using d0 P[of s] by (auto simp: lookup_set_weight weight_ok_def)
    then show ?thesis by blast
  qed
  from Cons.IH[OF res this] show ?case .
qed

lemma edges_loop_cover:
  assumes "map_of adj u = Some nbrs" "v \<in> fst ` set nbrs"
    and "map_of adj v = Some nbrs'" "u \<in> fst ` set nbrs'"
    and "u \<notin> seen_nodes" "v \<notin> seen_nodes"
  shows "(u, v) \<in> set (edges_loop seen_nodes adj) \<or> (v, u) \<in> set (edges_loop seen_nodes adj)"
  using assms
proof (induction seen_nodes adj rule: edges_loop.induct)
  case (1 seen_nodes)
  then show ?case by simp
next
  case (2 seen_nodes n ns rest)
  show ?case
  proof (cases "n = u")
    case True
    with 2(2) have "ns = nbrs" by simp
    with True 2(3,7) show ?thesis by auto
  next
    case nu: False
    show ?thesis
    proof (cases "n = v")
      case True
      with 2(4) have "ns = nbrs'" by simp
      with True 2(5,6) show ?thesis by auto
    next
      case False
      with nu 2 have "(u, v) \<in> set (edges_loop (insert n seen_nodes) rest) \<or>
                      (v, u) \<in> set (edges_loop (insert n seen_nodes) rest)"
        by (intro 2(1)) auto
      then show ?thesis by auto
    qed
  qed
qed

lemma lookup_dom:
  "lookup g u v \<noteq> None \<longleftrightarrow> (\<exists>nbrs. map_of (nx_adj g) u = Some nbrs \<and> v \<in> fst ` set nbrs)"
proof (cases "map_of (nx_adj g) u")
  case None
  then show ?thesis by (simp add: lookup_def adj_of_def)
next
  case (Some nbrs)
  then show ?thesis
    by (simp add: lookup_def adj_of_def map_of_eq_None_iff)
qed

lemma edges_cover:
  assumes "symmetric g" "lookup g u v \<noteq> None"
  shows "(u, v) \<in> set (edges g) \<or> (v, u) \<in> set (edges g)"
proof -
  from assms have "lookup g v u \<noteq> None" unfolding symmetric_def by blast
  with assms(2) obtain nbrs nbrs' where
    "map_of (nx_adj g) u = Some nbrs" "v \<in> fst ` set nbrs"
    "map_of (nx_adj g) v = Some nbrs'" "u \<in> fst ` set nbrs'"
    unfolding lookup_dom by blast
  then show ?thesis unfolding edges_def by (intro edges_loop_cover) auto
qed

lemma ensure_node_props:
  assumes "keys_agree g"
  shows "keys_agree (ensure_node n g)" and "lookup (ensure_node n g) u v = lookup g u v"
    and "n \<in> fst ` set (nx_adj (ensure_node n g))"
proof -
  show "keys_agree (ensure_node n g)"
    using assms by (auto simp: keys_agree_def ensure_node_def AList.dom_update)
  show "n \<in> fst ` set (nx_adj (ensure_node n g))"
    using assms by (auto simp: keys_agree_def ensure_node_def AList.dom_update)
  show "lookup (ensure_node n g) u v = lookup g u v"
  proof (cases "n \<in> fst ` set (nx_node g)")
    case True
    then show ?thesis by (simp add: ensure_node_def)
  next
    case False
    then have "n \<notin> fst ` set (nx_adj g)" using assms by (simp add: keys_agree_def)
    then have "map_of (nx_adj g) n = None" by (simp add: map_of_eq_None_iff)
    then show ?thesis using False
      by (simp add: ensure_node_def lookup_def adj_of_def AList.update_conv')
  qed
qed

lemma set_adj_props:
  shows "nx_node (set_adj a b dd g) = nx_node g"
    and "fst ` set (nx_adj (set_adj a b dd g)) = fst ` set (nx_adj g)"
    and "lookup (set_adj a b dd g) u v =
           (if u = a \<and> a \<in> fst ` set (nx_adj g) \<and> v = b then Some dd else lookup g u v)"
proof -
  show "nx_node (set_adj a b dd g) = nx_node g" by (simp add: set_adj_def)
  show "fst ` set (nx_adj (set_adj a b dd g)) = fst ` set (nx_adj g)"
    by (simp add: set_adj_def AList.dom_map_entry)
  show "lookup (set_adj a b dd g) u v =
           (if u = a \<and> a \<in> fst ` set (nx_adj g) \<and> v = b then Some dd else lookup g u v)"
  proof (cases "map_of (nx_adj g) a")
    case None
    then have "a \<notin> fst ` set (nx_adj g)" by (simp add: map_of_eq_None_iff)
    with None show ?thesis
      by (simp add: set_adj_def lookup_def adj_of_def AList.map_of_map_entry)
  next
    case (Some nb)
    then have "a \<in> fst ` set (nx_adj g)" by (metis map_of_eq_None_iff option.distinct(1))
    with Some show ?thesis
      by (simp add: set_adj_def lookup_def adj_of_def AList.map_of_map_entry AList.update_conv')
  qed
qed

lemma add_edge_props:
  assumes "keys_agree g"
  shows "keys_agree (add_edge a b attr g)"
    and "lookup (add_edge a b attr g) u v \<noteq> None \<longleftrightarrow>
           (u = a \<and> v = b) \<or> (u = b \<and> v = a) \<or> lookup g u v \<noteq> None"
proof -
  let ?g' = "ensure_node b (ensure_node a g)"
  have k1: "keys_agree (ensure_node a g)" using assms by (rule ensure_node_props(1))
  have k': "keys_agree ?g'" using k1 by (rule ensure_node_props(1))
  have l': "lookup ?g' u v = lookup g u v" for u v
    using ensure_node_props(2)[OF k1] ensure_node_props(2)[OF assms] by simp
  have b': "b \<in> fst ` set (nx_adj ?g')" using k1 by (rule ensure_node_props(3))
  have "a \<in> fst ` set (nx_adj (ensure_node a g))" using assms by (rule ensure_node_props(3))
  then have a': "a \<in> fst ` set (nx_adj ?g')"
    by (auto simp: ensure_node_def AList.dom_update)
  obtain dd where ae: "add_edge a b attr g = set_adj b a dd (set_adj a b dd ?g')"
    by (simp add: add_edge_def Let_def)
  show "keys_agree (add_edge a b attr g)"
    using k' unfolding ae keys_agree_def by (simp add: set_adj_props)
  show "lookup (add_edge a b attr g) u v \<noteq> None \<longleftrightarrow>
           (u = a \<and> v = b) \<or> (u = b \<and> v = a) \<or> lookup g u v \<noteq> None"
    unfolding ae using a' b' by (auto simp: set_adj_props l')
qed

lemma add_edge_symmetric:
  assumes "keys_agree g" "symmetric g"
  shows "symmetric (add_edge a b attr g)"
  using assms(2) unfolding symmetric_def add_edge_props(2)[OF assms(1)] by blast

lemma fold_add_edge_inv:
  "keys_agree g \<Longrightarrow> symmetric g \<Longrightarrow>
     keys_agree (foldl (\<lambda>G (u, v, d). add_edge u v d G) g items) \<and>
     symmetric (foldl (\<lambda>G (u, v, d). add_edge u v d G) g items)"
proof (induction items arbitrary: g)
  case Nil
  then show ?case by simp
next
  case (Cons x items)
  obtain u v d where x: "x = (u, v, d)" by (cases x)
  show ?case unfolding x foldl_Cons
    using Cons.IH[OF add_edge_props(1)[OF Cons.prems(1)] add_edge_symmetric[OF Cons.prems]]
    by simp
qed

lemma add_node_props:
  assumes "keys_agree g"
  shows "keys_agree (add_node g entry)" and "lookup (add_node g entry) u v = lookup g u v"
proof -
  obtain n d where e: "entry = (n, d)" by (cases entry)
  show "keys_agree (add_node g entry)"
    using ensure_node_props(1)[OF assms, of n]
    by (simp add: e add_node_def Let_def keys_agree_def AList.dom_map_entry)
  show "lookup (add_node g entry) u v = lookup g u v"
    using ensure_node_props(2)[OF assms, of n u v]
    by (simp add: e add_node_def Let_def lookup_def adj_of_def)
qed

lemma fold_add_node_inv:
  "keys_agree g \<Longrightarrow> symmetric g \<Longrightarrow>
     keys_agree (foldl add_node g ns) \<and> symmetric (foldl add_node g ns)"
proof (induction ns arbitrary: g)
  case Nil
  then show ?case by simp
next
  case (Cons x ns)
  have "symmetric (add_node g x)"
    using Cons.prems(2) unfolding symmetric_def add_node_props(2)[OF Cons.prems(1)] .
  with Cons.IH[OF add_node_props(1)[OF Cons.prems(1)]] show ?case by simp
qed

lemma copy_symmetric: "symmetric (copy g)"
proof -
  have "keys_agree empty_graph" "symmetric empty_graph"
    by (simp_all add: keys_agree_def symmetric_def empty_graph_def lookup_def adj_of_def)
  from fold_add_node_inv[OF this] fold_add_edge_inv show ?thesis
    unfolding copy_def by blast
qed

lemma add_random_weights_ok:
  assumes P: "\<And>x. P (py_round2 (fst (uniform R lo hi x)))"
    and d: "lookup (fst (add_random_weights R s0 g lo hi seed)) u v = Some d"
  shows "weight_ok P d"
proof -
  let ?wg = "copy g"
  have res: "lookup (fst (foldl (assign_weight R lo hi) (?wg, rng_seed R seed) (edges ?wg))) u v = Some d"
    using d by (simp add: add_random_weights_def Let_def)
  have "lookup ?wg u v \<noteq> None"
  proof
    assume "lookup ?wg u v = None"
    from assign_fold_None[OF this, of R lo hi "rng_seed R seed" "edges ?wg"] res
    show False by simp
  qed
  with copy_symmetric have "(u, v) \<in> set (edges ?wg) \<or> (v, u) \<in> set (edges ?wg)"
    by (rule edges_cover)
  then have "(u, v) \<in> set (edges ?wg) \<or> (v, u) \<in> set (edges ?wg) \<or>
             (\<exists>d0. lookup ?wg u v = Some d0 \<and> weight_ok P d0)" by blast
  from assign_fold_ok[of P R lo hi, OF P res this] show ?thesis .
qed

text \<open>
  C5. For every graph, weight range and seed, two invocations of \<^verbatim>\<open>add_random_weights\<close>
  with the same graph, range and seed produce the same weighted graph, whatever state
  the module's generator is in when each starts: the first statement compares two
  arbitrary states, the second runs the function again in the state the first run left.
\<close>

theorem add_random_weights_deterministic:
  "fst (add_random_weights R s1 g min_weight max_weight seed) =
     fst (add_random_weights R s2 g min_weight max_weight seed) \<and>
   add_random_weights R (snd (add_random_weights R s1 g min_weight max_weight seed))
       g min_weight max_weight seed =
     add_random_weights R s1 g min_weight max_weight seed"
  by (simp add: add_random_weights_def)

text \<open>
  What the rounding does keep: for every range with \<open>0 < min_weight < max_weight\<close>, every
  weight stored equals its own rounding to two decimal places, lies between the roundings
  of \<open>min_weight\<close> and \<open>max_weight\<close>, and is not negative; it lies within the range itself
  when the two bounds are numbers of two decimal places, as the default bounds 2 and 3 are.
\<close>

theorem weights_in_rounded_range:
  assumes "0 < min_weight" "min_weight < max_weight"
    and draws: "\<forall>s. 0 \<le> fst (rng_random R s) \<and> fst (rng_random R s) < 1"
    and d: "lookup (fst (add_random_weights R s0 g min_weight max_weight seed)) u v = Some d"
  shows "\<exists>w. weight d = Some w \<and> py_round2 w = w \<and>
             py_round2 min_weight \<le> w \<and> w \<le> py_round2 max_weight \<and> 0 \<le> w \<and>
             (py_round2 min_weight = min_weight \<and> py_round2 max_weight = max_weight \<longrightarrow>
                min_weight \<le> w \<and> w \<le> max_weight \<and> 0 < w)"
proof -
  let ?P = "\<lambda>w. py_round2 w = w \<and> py_round2 min_weight \<le> w \<and> w \<le> py_round2 max_weight"
  have "?P (py_round2 (fst (uniform R min_weight max_weight x)))" for x
  proof -
    have "min_weight \<le> fst (uniform R min_weight max_weight x) \<and>
          fst (uniform R min_weight max_weight x) \<le> max_weight"
      using assms(2) draws by (intro uniform_range) (auto simp: less_imp_le)
    then show ?thesis by (simp add: py_round2_idem py_round2_mono)
  qed
  from add_random_weights_ok[of ?P, OF this d]
  obtain w where w: "weight d = Some w" "py_round2 w = w" "py_round2 min_weight \<le> w"
    "w \<le> py_round2 max_weight"
    by (cases "weight d") (auto simp: weight_ok_def)
  have "py_round2 0 \<le> py_round2 min_weight" using assms(1) by (intro py_round2_mono) simp
  then have "0 \<le> w" using w(3) by (simp add: py_round2_zero)
  moreover have "min_weight \<le> w \<and> w \<le> max_weight \<and> 0 < w"
    if "py_round2 min_weight = min_weight \<and> py_round2 max_weight = max_weight"
    using that w(3,4) assms(1) by simp
  ultimately show ?thesis using w by blast
qed

theorem weights_in_rounded_range_witness:
  "(0 :: rat) < 2 \<and> (2 :: rat) < 3 \<and>
   (\<forall>s. 0 \<le> fst (rng_random quarter_rng s) \<and> fst (rng_random quarter_rng s) < 1) \<and>
   lookup (fst (add_random_weights quarter_rng 0 (fst (create_graph_from_ubahn scenario_a)) 2 3 42))
     ''S1'' ''S2'' = Some \<lparr>line = Some ''Red'', color = Some ''red'', weight = Some (5 / 2)\<rparr> \<and>
   py_round2 (5 / 2) = 5 / 2 \<and> py_round2 2 \<le> (5 / 2 :: rat) \<and> (5 / 2 :: rat) \<le> py_round2 3 \<and>
   (2 :: rat) \<le> 5 / 2 \<and> (5 / 2 :: rat) \<le> 3"
proof -
  have h1: "(0 :: rat) < 2" and h2: "(2 :: rat) < 3" by simp_all
  have h3: "\<forall>s. 0 \<le> fst (rng_random quarter_rng s) \<and> fst (rng_random quarter_rng s) < 1"
    by (simp add: quarter_rng_def)
  have h4: "lookup (fst (add_random_weights quarter_rng 0 (fst (create_graph_from_ubahn scenario_a)) 2 3 42))
     ''S1'' ''S2'' = Some \<lparr>line = Some ''Red'', color = Some ''red'', weight = Some (5 / 2)\<rparr>"
    by code_simp
  have r: "py_round2 2 = 2" "py_round2 3 = 3" by code_simp+
  from weights_in_rounded_range[OF h1 h2 h3 h4] obtain w where
    w: "weight \<lparr>line = Some ''Red'', color = Some ''red'', weight = Some (5 / 2)\<rparr> = Some w"
      "py_round2 w = w" "py_round2 2 \<le> w" "w \<le> py_round2 3"
      "py_round2 2 = 2 \<and> py_round2 3 = 3 \<longrightarrow> 2 \<le> w \<and> w \<le> 3 \<and> 0 < w"
    by blast
  have weq: "w = 5 / 2" using w(1) by simp
  have "py_round2 (5 / 2) = 5 / 2" "py_round2 2 \<le> (5 / 2 :: rat)" "(5 / 2 :: rat) \<le> py_round2 3"
    using w(2,3,4) unfolding weq by simp_all
  moreover have "(2 :: rat) \<le> 5 / 2" "(5 / 2 :: rat) \<le> 3"
    using w(5) r unfolding weq by simp_all
  ultimately show ?thesis using h1 h2 h3 h4 by (intro conjI)
qed

lemma small_draw_rounds_to_zero:
  assumes "0 \<le> x" "x < 1 / 200"
  shows "py_round2 x = 0"
proof -
  have f: "\<lfloor>x * 100\<rfloor> = 0" using assms by (intro floor_unique) simp_all
  have "x * 100 < 1 / 2" using assms(2) by simp
  then show ?thesis unfolding py_round2_def round_half_even_def Let_def f by simp
qed

text \<open>
  C8. Every edge of the graph returned by \<^verbatim>\<open>add_random_weights\<close> is claimed to carry a
  weight within \<open>[min_weight, max_weight]\<close> that is strictly positive, for every range with
  \<open>0 < min_weight < max_weight\<close>; the docstring calls the bounds the minimum and the maximum
  weight value. The function rounds the draw and does not bring the rounded value back into
  the range. For the range from 0.001 to 0.004 every draw is below half a hundredth and
  rounds to 0: the edge between \<open>B\<close> and \<open>A\<close> is stored with weight 0, which is below
  \<open>min_weight\<close> and not positive.
\<close>

theorem weights_below_minimum:
  "(0 :: rat) < 1 / 1000 \<and> (1 / 1000 :: rat) < 4 / 1000 \<and>
   lookup (fst (add_random_weights quarter_rng 0 (fst (create_graph_from_ubahn tie_network))
                  (1 / 1000) (4 / 1000) 42)) ''B'' ''A'' =
     Some \<lparr>line = Some ''U2'', color = Some ''red'', weight = Some 0\<rparr> \<and>
   \<not> (1 / 1000 :: rat) \<le> 0 \<and> \<not> (0 :: rat) < 0"
  by code_simp

section \<open>The construction keeps line sets above edge tags\<close>

lemma process_line_events:
  "foldl process_line (G, sl, lc) data =
     (fst (foldl connect_event (G, sl) (line_pairs data)),
      snd (foldl connect_event (G, sl) (line_pairs data)),
      foldl (\<lambda>lc (l, ld). AList.update l (line_data.color ld) lc) lc data)"
proof (induction data arbitrary: G sl lc)
  case Nil
  then show ?case by (simp add: line_pairs_def)
next
  case (Cons e data)
  obtain l ld where e: "e = (l, ld)" by (cases e)
  have inner: "foldl (connect l (line_data.color ld)) acc ps =
               foldl connect_event acc (map (\<lambda>(a, b). (l, line_data.color ld, a, b)) ps)" for acc ps
    by (induction ps arbitrary: acc) (auto simp: connect_event_def)
  obtain G1 sl1 where s1: "foldl (connect l (line_data.color ld)) (G, sl) (consecutive (stations ld)) = (G1, sl1)"
    by (cases "foldl (connect l (line_data.color ld)) (G, sl) (consecutive (stations ld))")
  have p: "process_line (G, sl, lc) (l, ld) = (G1, sl1, AList.update l (line_data.color ld) lc)"
    using s1 by (simp add: process_line_def)
  have lp: "line_pairs ((l, ld) # data) =
            map (\<lambda>(a, b). (l, line_data.color ld, a, b)) (consecutive (stations ld)) @ line_pairs data"
    by (simp add: line_pairs_def)
  show ?case
    unfolding e foldl_Cons p Cons.IH lp foldl_append inner[symmetric] s1 by simp
qed

lemma incident_tags_iff:
  "l \<in> incident_tags G s \<longleftrightarrow> (\<exists>v d. lookup G s v = Some d \<and> line d = Some l)"
proof
  assume "l \<in> incident_tags G s"
  then obtain v where
    v: "l \<in> set (case lookup G s v of None \<Rightarrow> []
                   | Some d \<Rightarrow> (case line d of None \<Rightarrow> [] | Some l \<Rightarrow> [l]))"
    unfolding incident_tags_def by auto
  then obtain d where d: "lookup G s v = Some d" by (cases "lookup G s v") auto
  with v have "line d = Some l" by (cases "line d") auto
  with d show "\<exists>v d. lookup G s v = Some d \<and> line d = Some l" by blast
next
  assume "\<exists>v d. lookup G s v = Some d \<and> line d = Some l"
  then obtain v d where vd: "lookup G s v = Some d" "line d = Some l" by blast
  then have "v \<in> fst ` set (adj_of G s)"
    unfolding lookup_def by (metis map_of_eq_None_iff option.distinct(1))
  moreover have "l \<in> set (case lookup G s v of None \<Rightarrow> []
                   | Some d \<Rightarrow> (case line d of None \<Rightarrow> [] | Some l \<Rightarrow> [l]))"
    using vd by simp
  ultimately show "l \<in> incident_tags G s"
    unfolding incident_tags_def set_concat set_map by blast
qed

lemma lookup_set_adj_both:
  assumes l': "\<And>u v. lookup (ensure_node b (ensure_node a g)) u v = lookup g u v"
   and a': "a \<in> fst ` set (nx_adj (ensure_node b (ensure_node a g)))"
   and b': "b \<in> fst ` set (nx_adj (ensure_node b (ensure_node a g)))"
  shows "lookup (set_adj b a dd (set_adj a b dd (ensure_node b (ensure_node a g)))) u v =
          (if (u = a \<and> v = b) \<or> (u = b \<and> v = a) then Some dd else lookup g u v)"
proof -
  let ?g' = "ensure_node b (ensure_node a g)"
  have 1: "lookup (set_adj a b dd ?g') x y = (if x = a \<and> y = b then Some dd else lookup g x y)" for x y
    using a' by (simp only: set_adj_props(3) l' simp_thms)
  have 2: "b \<in> fst ` set (nx_adj (set_adj a b dd ?g'))"
    using b' by (simp only: set_adj_props(2))
  have 3: "lookup (set_adj b a dd (set_adj a b dd ?g')) u v =
           (if u = b \<and> v = a then Some dd else lookup (set_adj a b dd ?g') u v)"
    using 2 by (simp only: set_adj_props(3) simp_thms)
  show ?thesis
  proof (cases "u = b \<and> v = a")
    case True
    then have "(u = a \<and> v = b) \<or> (u = b \<and> v = a)" by blast
    then show ?thesis unfolding 3 by (simp only: if_P[OF True] if_P)
  next
    case nba: False
    show ?thesis
    proof (cases "u = a \<and> v = b")
      case True
      then have "(u = a \<and> v = b) \<or> (u = b \<and> v = a)" by blast
      then show ?thesis unfolding 3 1 by (simp only: if_not_P[OF nba] if_P[OF True] if_P)
    next
      case False
      with nba have "\<not> ((u = a \<and> v = b) \<or> (u = b \<and> v = a))" by blast
      then show ?thesis unfolding 3 1 by (simp only: if_not_P[OF nba] if_not_P[OF False] if_not_P if_False)
    qed
  qed
qed

lemma lookup_add_edge:
  assumes "keys_agree g"
  shows "lookup (add_edge a b attr g) u v =
           (if (u = a \<and> v = b) \<or> (u = b \<and> v = a)
            then Some (update_attrs (case lookup g a b of None \<Rightarrow> empty_edge | Some d \<Rightarrow> d) attr)
            else lookup g u v)"
proof -
  let ?g' = "ensure_node b (ensure_node a g)"
  let ?dd = "update_attrs (case lookup g a b of None \<Rightarrow> empty_edge | Some d \<Rightarrow> d) attr"
  have k1: "keys_agree (ensure_node a g)" using assms by (rule ensure_node_props(1))
  have l': "lookup ?g' u v = lookup g u v" for u v
    using ensure_node_props(2)[OF k1] ensure_node_props(2)[OF assms] by simp
  have b': "b \<in> fst ` set (nx_adj ?g')" using k1 by (rule ensure_node_props(3))
  have "a \<in> fst ` set (nx_adj (ensure_node a g))" using assms by (rule ensure_node_props(3))
  then have a': "a \<in> fst ` set (nx_adj ?g')"
    by (auto simp: ensure_node_def AList.dom_update)
  have m: "map_of (adj_of ?g' a) b = lookup g a b"
    using l'[of a b] unfolding lookup_def .
  have ae: "add_edge a b attr g = set_adj b a ?dd (set_adj a b ?dd ?g')"
    unfolding add_edge_def Let_def m ..
  show ?thesis unfolding ae by (rule lookup_set_adj_both[OF l' a' b'])
qed

lemma nodes_add_edge:
  "fst ` set (nx_node (add_edge a b attr g)) = insert a (insert b (fst ` set (nx_node g)))"
  by (auto simp: add_edge_def Let_def set_adj_def ensure_node_def AList.dom_update)

lemma line_update_attrs:
  "line (update_attrs d \<lparr>line = Some l, color = Some c, weight = None\<rparr>) = Some l"
  by (simp add: update_attrs_def)

lemma setdefault_empty_props:
  shows "fst ` set (setdefault_empty k sl) = insert k (fst ` set sl)"
    and "distinct (map fst sl) \<Longrightarrow> distinct (map fst (setdefault_empty k sl))"
    and "lines_of (setdefault_empty k sl) u = lines_of sl u"
proof -
  show "fst ` set (setdefault_empty k sl) = insert k (fst ` set sl)"
    by (auto simp: setdefault_empty_def AList.dom_update)
  show "distinct (map fst sl) \<Longrightarrow> distinct (map fst (setdefault_empty k sl))"
    by (simp add: setdefault_empty_def AList.distinct_update)
  show "lines_of (setdefault_empty k sl) u = lines_of sl u"
  proof (cases "k \<in> fst ` set sl")
    case True
    then show ?thesis by (simp add: setdefault_empty_def)
  next
    case False
    then have "map_of sl k = None" by (simp add: map_of_eq_None_iff)
    then show ?thesis using False
      by (simp add: setdefault_empty_def lines_of_def AList.update_conv')
  qed
qed

lemma append_line_props:
  shows "fst ` set (append_line k l sl) = fst ` set sl"
    and "distinct (map fst sl) \<Longrightarrow> distinct (map fst (append_line k l sl))"
    and "set (lines_of (append_line k l sl) u) =
           set (lines_of sl u) \<union> (if u = k \<and> k \<in> fst ` set sl then {l} else {})"
proof -
  show "fst ` set (append_line k l sl) = fst ` set sl"
    by (simp add: append_line_def AList.dom_map_entry)
  show "distinct (map fst sl) \<Longrightarrow> distinct (map fst (append_line k l sl))"
    by (simp add: append_line_def AList.distinct_map_entry)
  show "set (lines_of (append_line k l sl) u) =
           set (lines_of sl u) \<union> (if u = k \<and> k \<in> fst ` set sl then {l} else {})"
  proof (cases "map_of sl k")
    case None
    then have "k \<notin> fst ` set sl" by (simp add: map_of_eq_None_iff)
    with None show ?thesis
      by (simp add: append_line_def lines_of_def AList.map_of_map_entry)
  next
    case (Some ls)
    then have "k \<in> fst ` set sl" by (metis map_of_eq_None_iff option.distinct(1))
    with Some show ?thesis
      by (auto simp: append_line_def lines_of_def AList.map_of_map_entry)
  qed
qed

lemma connect_station_lines:
  fixes sl :: station_lines
  defines "sl1 \<equiv> \<lambda>a b l. append_line b l (append_line a l
                       (setdefault_empty b (setdefault_empty a sl)))"
  shows "fst ` set (sl1 a b l) = insert a (insert b (fst ` set sl))"
    and "distinct (map fst sl) \<Longrightarrow> distinct (map fst (sl1 a b l))"
    and "set (lines_of (sl1 a b l) u) = set (lines_of sl u) \<union> (if u = a \<or> u = b then {l} else {})"
proof -
  show "fst ` set (sl1 a b l) = insert a (insert b (fst ` set sl))"
    unfolding sl1_def by (auto simp: append_line_props(1) setdefault_empty_props(1))
  show "distinct (map fst sl) \<Longrightarrow> distinct (map fst (sl1 a b l))"
    unfolding sl1_def by (simp add: append_line_props(2) setdefault_empty_props(2))
  show "set (lines_of (sl1 a b l) u) = set (lines_of sl u) \<union> (if u = a \<or> u = b then {l} else {})"
    unfolding sl1_def
    by (auto simp: append_line_props(1,3) setdefault_empty_props(1,3))
qed

lemma connect_event_eq:
  "connect_event (G, sl) (l, c, a, b) =
     (add_edge a b \<lparr>line = Some l, color = Some c, weight = None\<rparr> G,
      append_line b l (append_line a l (setdefault_empty b (setdefault_empty a sl))))"
  by (simp add: connect_event_def connect_def)

lemma joins_snoc:
  "joins (evs @ [(l, c, a, b)]) l' u v \<longleftrightarrow>
     joins evs l' u v \<or> (l' = l \<and> ((u = a \<and> v = b) \<or> (u = b \<and> v = a)))"
  unfolding joins_def by auto

lemma mem_lines_connect:
  "x \<in> set (lines_of (append_line b l (append_line a l
                 (setdefault_empty b (setdefault_empty a sl)))) u) \<longleftrightarrow>
     x \<in> set (lines_of sl u) \<or> ((u = a \<or> u = b) \<and> x = l)"
  unfolding connect_station_lines(3) by (cases "u = a \<or> u = b") (simp_all only: if_P if_not_P Un_iff empty_iff singleton_iff simp_thms)

lemma build_inv_step:
  assumes inv: "build_inv evs (G, sl)"
  shows "build_inv (evs @ [(l, c, a, b)]) (connect_event (G, sl) (l, c, a, b))"
proof -
  let ?attr = "\<lparr>line = Some l, color = Some c, weight = None\<rparr>"
  let ?G1 = "add_edge a b ?attr G"
  let ?sl1 = "append_line b l (append_line a l (setdefault_empty b (setdefault_empty a sl)))"
  let ?evs = "evs @ [(l, c, a, b)]"
  from inv have ka: "keys_agree G" and nk: "fst ` set (nx_node G) = fst ` set sl"
    and di: "distinct (map fst sl)"
    and t1: "\<forall>u v d. lookup G u v = Some d \<longrightarrow>
               (\<exists>l. line d = Some l \<and> l \<in> set (lines_of sl u) \<and> joins evs l u v)"
    and t2: "\<forall>u l. l \<in> set (lines_of sl u) \<longrightarrow> (\<exists>v. joins evs l u v)"
    unfolding build_inv_def by simp_all
  have 1: "keys_agree ?G1" using ka by (rule add_edge_props(1))
  have 2: "fst ` set (nx_node ?G1) = fst ` set ?sl1"
    unfolding nodes_add_edge connect_station_lines(1) nk ..
  have 3: "distinct (map fst ?sl1)" using di by (rule connect_station_lines(2))
  have 4: "\<forall>u v d. lookup ?G1 u v = Some d \<longrightarrow>
             (\<exists>l'. line d = Some l' \<and> l' \<in> set (lines_of ?sl1 u) \<and> joins ?evs l' u v)"
  proof (intro allI impI)
    fix u v d assume d: "lookup ?G1 u v = Some d"
    show "\<exists>l'. line d = Some l' \<and> l' \<in> set (lines_of ?sl1 u) \<and> joins ?evs l' u v"
    proof (cases "(u = a \<and> v = b) \<or> (u = b \<and> v = a)")
      case True
      have "lookup ?G1 u v =
              Some (update_attrs (case lookup G a b of None \<Rightarrow> empty_edge | Some d \<Rightarrow> d) ?attr)"
        unfolding lookup_add_edge[OF ka] by (simp only: if_P[OF True])
      with d have "d = update_attrs (case lookup G a b of None \<Rightarrow> empty_edge | Some d \<Rightarrow> d) ?attr"
        by simp
      then have "line d = Some l" by (simp only: line_update_attrs)
      moreover have "l \<in> set (lines_of ?sl1 u)" unfolding mem_lines_connect using True by blast
      moreover have "joins ?evs l u v" unfolding joins_snoc using True by blast
      ultimately show ?thesis by blast
    next
      case False
      have "lookup ?G1 u v = lookup G u v"
        unfolding lookup_add_edge[OF ka] by (simp only: if_not_P[OF False])
      with d t1 obtain l' where "line d = Some l'" "l' \<in> set (lines_of sl u)" "joins evs l' u v"
        by metis
      then have "line d = Some l' \<and> l' \<in> set (lines_of ?sl1 u) \<and> joins ?evs l' u v"
        unfolding mem_lines_connect joins_snoc by blast
      then show ?thesis by blast
    qed
  qed
  have 5: "\<forall>u l'. l' \<in> set (lines_of ?sl1 u) \<longrightarrow> (\<exists>v. joins ?evs l' u v)"
  proof (intro allI impI)
    fix u l' assume "l' \<in> set (lines_of ?sl1 u)"
    then consider "l' \<in> set (lines_of sl u)" | "u = a" "l' = l" | "u = b" "l' = l"
      unfolding mem_lines_connect by blast
    then show "\<exists>v. joins ?evs l' u v"
    proof cases
      case 1
      with t2 obtain v where "joins evs l' u v" by blast
      then have "joins ?evs l' u v" unfolding joins_snoc by blast
      then show ?thesis by blast
    next
      case 2
      then have "joins ?evs l' u b" unfolding joins_snoc by blast
      then show ?thesis by blast
    next
      case 3
      then have "joins ?evs l' u a" unfolding joins_snoc by blast
      then show ?thesis by blast
    qed
  qed
  show ?thesis
    unfolding connect_event_eq build_inv_def prod.case
    by (intro conjI 1 2 3 4 5)
qed

lemma build_inv_fold:
  "build_inv pre st \<Longrightarrow> build_inv (pre @ evs) (foldl connect_event st evs)"
proof (induction evs arbitrary: pre st)
  case Nil
  then show ?case by simp
next
  case (Cons e evs)
  obtain l c a b where e: "e = (l, c, a, b)" by (cases e)
  obtain G sl where st: "st = (G, sl)" by (cases st)
  have "build_inv (pre @ [e]) (connect_event st e)"
    using Cons.prems unfolding e st by (rule build_inv_step)
  from Cons.IH[OF this] show ?case by simp
qed

lemma tags_kept_step:
  assumes ns: "no_shared_pair all_evs" and sub: "set (evs @ [(l, c, a, b)]) \<subseteq> set all_evs"
    and ka: "keys_agree G" and tk: "tags_kept evs G"
  shows "tags_kept (evs @ [(l, c, a, b)]) (fst (connect_event (G, sl) (l, c, a, b)))"
  unfolding tags_kept_def
proof (intro allI impI)
  let ?attr = "\<lparr>line = Some l, color = Some c, weight = None\<rparr>"
  let ?G1 = "add_edge a b ?attr G"
  fix l' u v assume j: "joins (evs @ [(l, c, a, b)]) l' u v"
  have G1: "fst (connect_event (G, sl) (l, c, a, b)) = ?G1" by (simp add: connect_event_eq)
  show "\<exists>d. lookup (fst (connect_event (G, sl) (l, c, a, b))) u v = Some d \<and> line d = Some l'"
  proof (cases "(u = a \<and> v = b) \<or> (u = b \<and> v = a)")
    case True
    have mem: "(l, c, a, b) \<in> set all_evs" using sub by simp
    from j obtain c' where "(l', c', u, v) \<in> set all_evs \<or> (l', c', v, u) \<in> set all_evs"
      unfolding joins_def using sub by blast
    then have "l' = l"
    proof
      assume "(l', c', u, v) \<in> set all_evs"
      with ns mem True show ?thesis unfolding no_shared_pair_def by fast
    next
      assume "(l', c', v, u) \<in> set all_evs"
      with ns mem True show ?thesis unfolding no_shared_pair_def by fast
    qed
    moreover have "lookup ?G1 u v =
            Some (update_attrs (case lookup G a b of None \<Rightarrow> empty_edge | Some d \<Rightarrow> d) ?attr)"
      unfolding lookup_add_edge[OF ka] by (simp only: if_P[OF True])
    ultimately show ?thesis unfolding G1 by (simp add: line_update_attrs)
  next
    case False
    have same: "lookup ?G1 u v = lookup G u v"
      unfolding lookup_add_edge[OF ka] by (simp only: if_not_P[OF False])
    from j False have "joins evs l' u v" unfolding joins_snoc by blast
    with tk show ?thesis unfolding G1 same tags_kept_def by blast
  qed
qed

lemma tags_kept_fold:
  assumes ns: "no_shared_pair all_evs"
  shows "set (pre @ evs) \<subseteq> set all_evs \<Longrightarrow> build_inv pre st \<Longrightarrow> tags_kept pre (fst st) \<Longrightarrow>
         tags_kept (pre @ evs) (fst (foldl connect_event st evs))"
proof (induction evs arbitrary: pre st)
  case Nil
  then show ?case by simp
next
  case (Cons e evs)
  obtain l c a b where e: "e = (l, c, a, b)" by (cases e)
  obtain G sl where st: "st = (G, sl)" by (cases st)
  have ka: "keys_agree G" using Cons.prems(2) unfolding st build_inv_def by simp
  have sub1: "set (pre @ [(l, c, a, b)]) \<subseteq> set all_evs" using Cons.prems(1) unfolding e by auto
  have tk: "tags_kept pre G" using Cons.prems(3) unfolding st by simp
  have 1: "tags_kept (pre @ [e]) (fst (connect_event st e))"
    unfolding e st by (rule tags_kept_step[OF ns sub1 ka tk])
  have 2: "build_inv (pre @ [e]) (connect_event st e)"
    using Cons.prems(2) unfolding e st by (rule build_inv_step)
  have 3: "set ((pre @ [e]) @ evs) \<subseteq> set all_evs" using Cons.prems(1) by simp
  from Cons.IH[OF 3 2 1] show ?case by simp
qed

lemma set_station_attrs_adj: "nx_adj (foldl set_station_attrs G sl) = nx_adj G"
  by (induction sl arbitrary: G) (auto simp: set_station_attrs_def)

lemma set_station_attrs_nodes:
  "fst ` set (nx_node (foldl set_station_attrs G sl)) = fst ` set (nx_node G)"
proof (induction sl arbitrary: G)
  case Nil
  then show ?case by simp
next
  case (Cons e sl)
  obtain k lns where e: "e = (k, lns)" by (cases e)
  have "fst ` set (nx_node (set_station_attrs G (k, lns))) = fst ` set (nx_node G)"
    by (simp add: set_station_attrs_def AList.dom_map_entry)
  then show ?case unfolding e foldl_Cons Cons.IH .
qed

lemma station_line_set_step:
  "station_line_set (set_station_attrs G (k, lns)) s =
     (if s = k \<and> k \<in> fst ` set (nx_node G) then Some (set lns) else station_line_set G s)"
proof (cases "map_of (nx_node G) k")
  case None
  then have "k \<notin> fst ` set (nx_node G)" by (simp add: map_of_eq_None_iff)
  with None show ?thesis
    by (simp add: station_line_set_def set_station_attrs_def AList.map_of_map_entry)
next
  case (Some nd)
  then have "k \<in> fst ` set (nx_node G)" by (metis map_of_eq_None_iff option.distinct(1))
  with Some show ?thesis
    by (simp add: station_line_set_def set_station_attrs_def AList.map_of_map_entry)
qed

lemma station_line_set_other:
  "s \<notin> fst ` set sl \<Longrightarrow> station_line_set (foldl set_station_attrs G sl) s = station_line_set G s"
proof (induction sl arbitrary: G)
  case Nil
  then show ?case by simp
next
  case (Cons e sl)
  obtain k lns where e: "e = (k, lns)" by (cases e)
  from Cons.prems have "s \<noteq> k" "s \<notin> fst ` set sl" unfolding e by auto
  then show ?case unfolding e foldl_Cons by (simp add: Cons.IH station_line_set_step)
qed

lemma station_line_set_fold:
  "distinct (map fst sl) \<Longrightarrow> map_of sl s = Some lns \<Longrightarrow> s \<in> fst ` set (nx_node G) \<Longrightarrow>
     station_line_set (foldl set_station_attrs G sl) s = Some (set lns)"
proof (induction sl arbitrary: G)
  case Nil
  then show ?case by simp
next
  case (Cons e sl)
  obtain k v where e: "e = (k, v)" by (cases e)
  show ?case
  proof (cases "s = k")
    case True
    then have "lns = v" using Cons.prems(2) unfolding e by simp
    moreover have "s \<notin> fst ` set sl" using Cons.prems(1) True unfolding e by auto
    ultimately show ?thesis
      unfolding e foldl_Cons using True Cons.prems(3)
      by (simp add: station_line_set_other station_line_set_step)
  next
    case False
    then have m: "map_of sl s = Some lns" using Cons.prems(2) unfolding e by simp
    have d: "distinct (map fst sl)" using Cons.prems(1) by simp
    have n: "s \<in> fst ` set (nx_node (set_station_attrs G (k, v)))"
      using Cons.prems(3) by (simp add: set_station_attrs_def AList.dom_map_entry)
    show ?thesis unfolding e foldl_Cons by (rule Cons.IH[OF d m n])
  qed
qed

lemma incident_tags_adj: "nx_adj G = nx_adj G' \<Longrightarrow> incident_tags G s = incident_tags G' s"
  by (simp add: incident_tags_def lookup_def adj_of_def)

lemma build_inv_empty: "build_inv [] (empty_graph, [])"
  by (simp add: build_inv_def keys_agree_def empty_graph_def lookup_def adj_of_def lines_of_def)

lemma tags_kept_empty: "tags_kept [] G"
  by (simp add: tags_kept_def joins_def)

text \<open>
  C4 (as amended). For every graph built from line data and every station in it, the line
  tags on the edges at the station all belong to the station's recorded set of line names;
  the two sets are equal when no two different lines join the same pair of stations
  consecutively.
\<close>

theorem station_lines_cover_edge_tags:
  assumes built: "create_graph_from_ubahn data = (G, sl, cols)" and s: "contains G s"
  shows "\<exists>L. station_line_set G s = Some L \<and> incident_tags G s \<subseteq> L \<and>
             (no_shared_pair (line_pairs data) \<longrightarrow> incident_tags G s = L)"
proof -
  let ?evs = "line_pairs data"
  let ?st = "foldl connect_event (empty_graph, []) ?evs"
  have G: "G = foldl set_station_attrs (fst ?st) sl" and sl: "sl = snd ?st"
    using built unfolding create_graph_from_ubahn_def process_line_events by auto
  have inv: "build_inv ?evs (fst ?st, sl)"
    using build_inv_fold[OF build_inv_empty, of ?evs] unfolding sl by simp
  then have nk: "fst ` set (nx_node (fst ?st)) = fst ` set sl" and di: "distinct (map fst sl)"
    and t1: "\<forall>u v d. lookup (fst ?st) u v = Some d \<longrightarrow>
               (\<exists>l. line d = Some l \<and> l \<in> set (lines_of sl u) \<and> joins ?evs l u v)"
    and t2: "\<forall>u l. l \<in> set (lines_of sl u) \<longrightarrow> (\<exists>v. joins ?evs l u v)"
    unfolding build_inv_def by simp_all
  have sn: "s \<in> fst ` set (nx_node (fst ?st))"
    using s unfolding G contains_def set_station_attrs_nodes .
  then have "s \<in> fst ` set sl" using nk by simp
  then obtain lns where lns: "map_of sl s = Some lns"
    by (metis map_of_eq_None_iff not_Some_eq)
  have L: "station_line_set G s = Some (set lns)"
    unfolding G by (rule station_line_set_fold[OF di lns sn])
  have lo: "lines_of sl s = lns" using lns by (simp add: lines_of_def)
  have tags: "incident_tags G s = incident_tags (fst ?st) s"
    unfolding G by (rule incident_tags_adj) (simp add: set_station_attrs_adj)
  have sub: "incident_tags G s \<subseteq> set lns"
  proof
    fix l assume "l \<in> incident_tags G s"
    then obtain v d where "lookup (fst ?st) s v = Some d" "line d = Some l"
      unfolding tags incident_tags_iff by blast
    with t1 have "l \<in> set (lines_of sl s)" by fastforce
    then show "l \<in> set lns" unfolding lo .
  qed
  have eq: "incident_tags G s = set lns" if ns: "no_shared_pair ?evs"
  proof -
    have "tags_kept ([] @ ?evs) (fst (foldl connect_event (empty_graph, []) ?evs))"
      by (rule tags_kept_fold[OF ns _ build_inv_empty tags_kept_empty]) simp
    then have tk: "tags_kept ?evs (fst ?st)" by simp
    have "set lns \<subseteq> incident_tags G s"
    proof
      fix l assume "l \<in> set lns"
      then have "l \<in> set (lines_of sl s)" unfolding lo .
      with t2 obtain v where "joins ?evs l s v" by blast
      with tk obtain d where "lookup (fst ?st) s v = Some d" "line d = Some l"
        unfolding tags_kept_def by blast
      then show "l \<in> incident_tags G s" unfolding tags incident_tags_iff by blast
    qed
    with sub show ?thesis by blast
  qed
  show ?thesis using L sub eq by blast
qed

theorem station_lines_cover_edge_tags_witness:
  "create_graph_from_ubahn scenario_a =
     (fst (create_graph_from_ubahn scenario_a), fst (snd (create_graph_from_ubahn scenario_a)),
      snd (snd (create_graph_from_ubahn scenario_a))) \<and>
   contains (fst (create_graph_from_ubahn scenario_a)) ''S3'' \<and>
   no_shared_pair (line_pairs scenario_a) \<and>
   station_line_set (fst (create_graph_from_ubahn scenario_a)) ''S3'' = Some {''Red'', ''Blue''} \<and>
   incident_tags (fst (create_graph_from_ubahn scenario_a)) ''S3'' = {''Red'', ''Blue''}"
proof -
  let ?G = "fst (create_graph_from_ubahn scenario_a)"
  have h1: "create_graph_from_ubahn scenario_a =
     (?G, fst (snd (create_graph_from_ubahn scenario_a)), snd (snd (create_graph_from_ubahn scenario_a)))"
    by simp
  have h2: "contains ?G ''S3''" by code_simp
  have h3: "no_shared_pair (line_pairs scenario_a)" by code_simp
  have h4: "station_line_set ?G ''S3'' = Some {''Red'', ''Blue''}" by code_simp
  from station_lines_cover_edge_tags[OF h1 h2] h3 h4
  have "incident_tags ?G ''S3'' = {''Red'', ''Blue''}" by auto
  with h1 h2 h3 h4 show ?thesis by (intro conjI)
qed

text \<open>
  C4 as stated fails when two lines join the same pair: the later line overwrites the tag
  of the edge. With \<open>U1 = [B, A]\<close> and \<open>U2 = [B, A]\<close> station \<open>B\<close> records both lines and
  its only edge is tagged \<open>U2\<close>.
\<close>

theorem edge_tags_counterexample:
  "contains (fst (create_graph_from_ubahn tie_network)) ''B'' \<and>
   station_line_set (fst (create_graph_from_ubahn tie_network)) ''B'' = Some {''U1'', ''U2''} \<and>
   incident_tags (fst (create_graph_from_ubahn tie_network)) ''B'' = {''U2''} \<and>
   {''U1'', ''U2''} \<noteq> {''U2''}"
  by code_simp

section \<open>Missing and negative weights\<close>

lemma relax_error: "relax v d st z = Inl e \<Longrightarrow> e = ValueError \<or> e = KeyError"
  by (auto simp: relax_def Let_def split: prod.splits option.splits if_splits)

lemma relax_all_error: "relax_all v d st nbrs = Inl e \<Longrightarrow> e = ValueError \<or> e = KeyError"
  by (induction nbrs arbitrary: st) (auto split: sum.splits dest: relax_error)

lemma dijkstra_loop_error:
  "dijkstra_loop g target st = Inl e \<Longrightarrow> e = ValueError \<or> e = KeyError"
proof (induction g target st rule: dijkstra_loop.induct)
  case (1 g target st)
  show ?case
  proof (cases "heappop (fringe st)")
    case None
    with 1(3) show ?thesis by (subst (asm) dijkstra_loop.simps) simp
  next
    case (Some x2)
    obtain d c v rest where x2: "x2 = ((d, c, v), rest)" by (cases x2) auto
    have pop: "heappop (fringe st) = Some ((d, c, v), rest)" using Some x2 by simp
    show ?thesis
    proof (cases "v \<in> dom (dist st)")
      case True
      have "dijkstra_loop g target st = dijkstra_loop g target (st\<lparr>fringe := rest\<rparr>)"
        using pop True by (subst dijkstra_loop.simps) simp
      with 1(3) "1.IH"(1)[OF pop refl refl refl True] show ?thesis by simp
    next
      case False
      show ?thesis
      proof (cases "v = target")
        case True
        with 1(3) pop False show ?thesis by (subst (asm) dijkstra_loop.simps) simp
      next
        case vt: False
        show ?thesis
        proof (cases "map_of (nx_adj g) v")
          case None
          with 1(3) pop False vt show ?thesis by (subst (asm) dijkstra_loop.simps) simp
        next
          case (Some nbrs)
          let ?st1 = "st\<lparr>fringe := rest, dist := (dist st)(v \<mapsto> d)\<rparr>"
          show ?thesis
          proof (cases "relax_all v d ?st1 nbrs")
            case (Inl e')
            then have "dijkstra_loop g target st = Inl e'"
              using pop False vt Some by (subst dijkstra_loop.simps) simp
            with 1(3) relax_all_error[OF Inl] show ?thesis by simp
          next
            case (Inr st')
            then have "dijkstra_loop g target st = dijkstra_loop g target st'"
              using pop False vt Some by (subst dijkstra_loop.simps) simp
            with 1(3) "1.IH"(2)[OF pop refl refl refl False vt Some Inr] show ?thesis by simp
          qed
        qed
      qed
    qed
  qed
qed

lemma dijkstra_path_error:
  "dijkstra_path g s t = Inl e \<Longrightarrow>
     e = NodeNotFound \<or> e = NetworkXNoPath \<or> e = ValueError \<or> e = KeyError"
  by (auto simp: dijkstra_path_def split: if_splits sum.splits option.splits
      dest: dijkstra_loop_error)

lemma dijkstra_path_length_error:
  "dijkstra_path_length g s t = Inl e \<Longrightarrow>
     e = NodeNotFound \<or> e = NetworkXNoPath \<or> e = ValueError \<or> e = KeyError"
  by (auto simp: dijkstra_path_length_def split: if_splits sum.splits option.splits
      dest: dijkstra_loop_error)

lemma edge_weight_error: "edge_weight g u v = Inl e \<Longrightarrow> e = KeyError"
  by (auto simp: edge_weight_def split: option.splits)

lemma edge_details_error: "edge_details g p = Inl e \<Longrightarrow> e = KeyError"
  by (induction g p rule: edge_details.induct) (auto split: sum.splits dest: edge_weight_error)

lemma edge_details_weights:
  "edge_details g p = Inr det \<Longrightarrow> (u, v, w) \<in> set det \<Longrightarrow> edge_weight g u v = Inr w"
  by (induction g p arbitrary: det rule: edge_details.induct) (auto split: sum.splits)

lemma edge_details_length:
  "edge_details g p = Inr det \<Longrightarrow> length det = length p - 1"
  by (induction g p arbitrary: det rule: edge_details.induct) (auto split: sum.splits)

lemma step_cost_weight_or_one: "step_cost g u v = weight_or_one g u v"
  by (simp add: step_cost_def weight_or_one_def lookup_def cost_def split: option.splits)

lemma path_sum_path_cost: "path_sum g p = path_cost g p"
  by (induction g p rule: path_sum.induct) (simp_all add: step_cost_weight_or_one)

lemma no_negative_weight_iff: "no_negative_weight g \<longleftrightarrow> nonneg_costs g"
proof -
  have "(case weight e of None \<Rightarrow> True | Some w \<Rightarrow> 0 \<le> w) \<longleftrightarrow> 0 \<le> cost e" for e
    by (simp add: cost_def split: option.splits)
  then show ?thesis unfolding no_negative_weight_def nonneg_costs_def by simp
qed

lemma edge_weight_lookup:
  "edge_weight g u v =
     (case lookup g u v of
        None \<Rightarrow> Inl KeyError
      | Some e \<Rightarrow> (case weight e of None \<Rightarrow> Inl KeyError | Some w \<Rightarrow> Inr w))"
  by (cases "map_of (nx_adj g) u") (simp_all add: edge_weight_def lookup_def adj_of_def)

lemma adjacent_lookup: "adjacent g u v \<Longrightarrow> lookup g u v \<noteq> None"
  unfolding lookup_dom adjacent_iff .

lemma edge_details_unweighted:
  "is_path g p \<Longrightarrow>
     (traverses_unweighted g p \<longrightarrow> edge_details g p = Inl KeyError) \<and>
     (\<not> traverses_unweighted g p \<longrightarrow> (\<exists>det. edge_details g p = Inr det))"
proof (induction g p rule: edge_details.induct)
  case (1 g u v rest)
  from 1(2) have adj: "adjacent g u v" and rest: "is_path g (v # rest)" by simp_all
  from adjacent_lookup[OF adj] obtain e where e: "lookup g u v = Some e" by blast
  show ?case
  proof (cases "weight e")
    case None
    then show ?thesis using e by (simp add: edge_weight_lookup lacks_weight_def)
  next
    case (Some w)
    then have ew: "edge_weight g u v = Inr w" and lw: "\<not> lacks_weight g u v"
      using e by (simp_all add: edge_weight_lookup lacks_weight_def)
    from "1.IH"[OF ew rest] show ?thesis
      using ew lw by (cases "edge_details g (v # rest)") (auto dest: edge_details_error)
  qed
qed simp_all

lemma dijkstra_shortest_path_cases:
  assumes p: "dijkstra_path g start goal = Inr p" and pv: "is_path g p"
    and d: "dijkstra_path_length g start goal = Inr d"
  shows "(traverses_unweighted g p \<longrightarrow> dijkstra_shortest_path g start goal = Inl KeyError) \<and>
         (\<not> traverses_unweighted g p \<longrightarrow>
            (\<exists>det. dijkstra_shortest_path g start goal = Inr (Some p, Some d, Some det)))"
  using edge_details_unweighted[OF pv] p d
  by (auto simp: dijkstra_shortest_path_def)

lemma relax_shape:
  assumes "relax v d st (u, e) = Inr st'"
  shows "dist st' = dist st \<and>
         (fringe st' = fringe st \<or> fringe st' = fringe st @ [(d + cost e, counter st, u)])"
  using assms
  by (auto simp: relax_def Let_def split: option.splits if_splits)

lemma step_cost_edge:
  assumes dn: "distinct_neighbors g" and nb: "map_of (nx_adj g) v = Some nbrs"
    and mem: "(u, e) \<in> set nbrs"
  shows "step_cost g v u = cost e"
proof -
  have "(v, nbrs) \<in> set (nx_adj g)" using nb by (rule map_of_SomeD)
  with dn have "distinct (map fst nbrs)" unfolding distinct_neighbors_def by blast
  with mem have "map_of nbrs u = Some e" by simp
  then show ?thesis using nb by (simp add: step_cost_def adj_of_def)
qed

lemma relax_attained:
  assumes wf: "wf_graph g" and dn: "distinct_neighbors g"
    and att: "dj_attained g s st" and dv: "dist st v = Some d"
    and nb: "map_of (nx_adj g) v = Some nbrs" and mem: "(u, e) \<in> set nbrs"
    and r: "relax v d st (u, e) = Inr st'"
  shows "dj_attained g s st'"
proof -
  from relax_shape[OF r] have ds: "dist st' = dist st"
    and fr: "fringe st' = fringe st \<or> fringe st' = fringe st @ [(d + cost e, counter st, u)]"
    by simp_all
  from att dv obtain q where q: "path_between g s v q" "path_cost g q = d"
    unfolding dj_attained_def by blast
  have adj: "adjacent g v u" using nb mem by (rule edge_adjacent)
  have cu: "contains g u" using wf adj by (rule wf_adjacent_contains)
  have pq: "path_between g s u (q @ [u])" using q(1) adj cu by (rule path_between_snocI)
  have "q \<noteq> []" using q(1) unfolding path_between_def by (auto dest: is_path_nonempty)
  moreover have "last q = v" using q(1) unfolding path_between_def by simp
  ultimately have "path_cost g (q @ [u]) = d + cost e"
    using q(2) step_cost_edge[OF dn nb mem] by (simp add: path_cost_snoc)
  with pq have new: "\<exists>q'. path_between g s u q' \<and> path_cost g q' = d + cost e" by blast
  have "\<exists>q. path_between g s y q \<and> path_cost g q = d0" if "(d0, c0, y) \<in> set (fringe st')" for d0 c0 y
  proof -
    from that fr have "(d0, c0, y) \<in> set (fringe st) \<or> (d0 = d + cost e \<and> y = u)" by auto
    then show ?thesis
    proof
      assume "(d0, c0, y) \<in> set (fringe st)"
      with att show ?thesis unfolding dj_attained_def by blast
    next
      assume "d0 = d + cost e \<and> y = u"
      with new show ?thesis by simp
    qed
  qed
  then have 1: "\<forall>(d, c, u) \<in> set (fringe st'). \<exists>q. path_between g s u q \<and> path_cost g q = d"
    by blast
  have 2: "\<forall>x d. dist st' x = Some d \<longrightarrow> (\<exists>q. path_between g s x q \<and> path_cost g q = d)"
    using att unfolding ds dj_attained_def by blast
  show ?thesis unfolding dj_attained_def by (rule conjI[OF 1 2])
qed

lemma relax_all_attained:
  assumes wf: "wf_graph g" and dn: "distinct_neighbors g"
    and nb: "map_of (nx_adj g) v = Some nbrs"
  shows "set rest \<subseteq> set nbrs \<Longrightarrow> dj_attained g s st \<Longrightarrow> dist st v = Some d \<Longrightarrow>
         relax_all v d st rest = Inr st' \<Longrightarrow> dj_attained g s st'"
proof (induction rest arbitrary: st)
  case Nil
  then show ?case by simp
next
  case (Cons z rest)
  obtain u e where z: "z = (u, e)" by (cases z)
  from Cons.prems(4) obtain st1 where st1: "relax v d st (u, e) = Inr st1"
    "relax_all v d st1 rest = Inr st'"
    unfolding z by (cases "relax v d st (u, e)") simp_all
  have mem: "(u, e) \<in> set nbrs" using Cons.prems(1) z by simp
  have a1: "dj_attained g s st1"
    by (rule relax_attained[OF wf dn Cons.prems(2) Cons.prems(3) nb mem st1(1)])
  have d1: "dist st1 v = Some d" using relax_shape[OF st1(1)] Cons.prems(3) by simp
  have sub: "set rest \<subseteq> set nbrs" using Cons.prems(1) by simp
  show ?case by (rule Cons.IH[OF sub a1 d1 st1(2)])
qed

lemma dijkstra_loop_attained:
  assumes "wf_graph g" "distinct_neighbors g" "dj_attained g s st"
    and "dijkstra_loop g t st = Inr st'"
  shows "dj_attained g s st'"
  using assms
proof (induction g t st rule: dijkstra_loop.induct)
  case (1 g t st)
  note wf = 1(3) and dn = 1(4) and att = 1(5) and res = 1(6)
  show ?case
  proof (cases "heappop (fringe st)")
    case None
    with res have "st' = st" by (subst (asm) dijkstra_loop.simps) simp
    with att show ?thesis by simp
  next
    case (Some x2)
    obtain d c v rest where x2: "x2 = ((d, c, v), rest)" by (cases x2) auto
    have pop: "heappop (fringe st) = Some ((d, c, v), rest)" using Some x2 by simp
    have F: "set (fringe st) = insert (d, c, v) (set rest)" using pop by (rule heappop_set)
    from att F obtain qv where qv: "path_between g s v qv" "path_cost g qv = d"
      unfolding dj_attained_def by blast
    have att_rest: "dj_attained g s (st\<lparr>fringe := rest\<rparr>)"
      using att F unfolding dj_attained_def by simp
    let ?st1 = "st\<lparr>fringe := rest, dist := (dist st)(v \<mapsto> d)\<rparr>"
    have att1: "dj_attained g s ?st1"
      using att F qv unfolding dj_attained_def by auto
    show ?thesis
    proof (cases "v \<in> dom (dist st)")
      case True
      have "dijkstra_loop g t st = dijkstra_loop g t (st\<lparr>fringe := rest\<rparr>)"
        using pop True by (subst dijkstra_loop.simps) simp
      with res have r: "dijkstra_loop g t (st\<lparr>fringe := rest\<rparr>) = Inr st'" by simp
      show ?thesis by (rule "1.IH"(1)[OF pop refl refl refl True wf dn att_rest r])
    next
      case False
      show ?thesis
      proof (cases "v = t")
        case True
        have "dijkstra_loop g t st = Inr ?st1"
          using pop False True by (subst dijkstra_loop.simps) simp
        with res have "st' = ?st1" by simp
        with att1 show ?thesis by simp
      next
        case vt: False
        show ?thesis
        proof (cases "map_of (nx_adj g) v")
          case None
          have "dijkstra_loop g t st = Inl KeyError"
            using pop False vt None by (subst dijkstra_loop.simps) simp
          with res show ?thesis by simp
        next
          case nb: (Some nbrs)
          show ?thesis
          proof (cases "relax_all v d ?st1 nbrs")
            case (Inl e')
            have "dijkstra_loop g t st = Inl e'"
              using pop False vt nb Inl by (subst dijkstra_loop.simps) simp
            with res show ?thesis by simp
          next
            case (Inr st2)
            have "dijkstra_loop g t st = dijkstra_loop g t st2"
              using pop False vt nb Inr by (subst dijkstra_loop.simps) simp
            with res have r: "dijkstra_loop g t st2 = Inr st'" by simp
            have dv: "dist ?st1 v = Some d" by simp
            have att2: "dj_attained g s st2"
              by (rule relax_all_attained[OF wf dn nb subset_refl att1 dv Inr])
            show ?thesis
              by (rule "1.IH"(2)[OF pop refl refl refl False vt nb Inr wf dn att2 r])
          qed
        qed
      qed
    qed
  qed
qed

lemma dj_attained_init:
  assumes "contains g s"
  shows "dj_attained g s (initial_state s b)"
proof -
  have "path_between g s s [s] \<and> path_cost g [s] = 0"
    using assms by (simp add: path_between_def)
  then have "\<exists>q. path_between g s s q \<and> path_cost g q = 0" by blast
  then show ?thesis unfolding dj_attained_def by (simp add: initial_state_def)
qed

lemma dijkstra_path_length_least:
  assumes wf: "wf_graph g" and dn: "distinct_neighbors g" and nn: "nonneg_costs g"
    and q: "path_between g s t q"
  shows "\<exists>d. dijkstra_path_length g s t = Inr d \<and>
             (\<exists>q. path_between g s t q \<and> path_cost g q = d) \<and>
             (\<forall>q. path_between g s t q \<longrightarrow> d \<le> path_cost g q)"
proof -
  have cs: "contains g s" using q path_between_contains by blast
  from dijkstra_path_length_reachable[OF wf nn q] obtain d where
    d: "dijkstra_path_length g s t = Inr d" "\<forall>q. path_between g s t q \<longrightarrow> d \<le> path_cost g q"
    by blast
  have "\<exists>q. path_between g s t q \<and> path_cost g q = d"
  proof (cases "s = t")
    case True
    then have "d = 0" using d(1) cs by (simp add: dijkstra_path_length_def)
    moreover have "path_between g s t [s] \<and> path_cost g [s] = 0"
      using cs True by (simp add: path_between_def)
    ultimately show ?thesis by blast
  next
    case False
    from d(1) cs False obtain st' where
      st': "dijkstra_loop g t (initial_state s False) = Inr st'" "dist st' t = Some d"
      by (auto simp: dijkstra_path_length_def split: sum.splits option.splits)
    have "dj_attained g s st'"
      by (rule dijkstra_loop_attained[OF wf dn dj_attained_init[OF cs] st'(1)])
    with st'(2) show ?thesis unfolding dj_attained_def by blast
  qed
  with d show ?thesis by blast
qed

lemma single_edge_graph:
  assumes "a \<noteq> b"
  shows "weighted_edge a b w empty_graph =
           \<lparr>nx_node = [(a, empty_node), (b, empty_node)],
            nx_adj = [(a, [(b, \<lparr>line = None, color = None, weight = Some w\<rparr>)]),
                      (b, [(a, \<lparr>line = None, color = None, weight = Some w\<rparr>)])]\<rparr>"
  using assms
  by (simp add: weighted_edge_def add_edge_def ensure_node_def empty_graph_def set_adj_def
      adj_of_def update_attrs_def empty_edge_def Let_def)

lemma single_edge_loop:
  assumes ab: "a \<noteq> b"
  shows "dijkstra_loop (weighted_edge a b w empty_graph) b (initial_state a wp) =
           Inr \<lparr>dist = [a \<mapsto> 0, b \<mapsto> w], seen = [a \<mapsto> 0, b \<mapsto> w], counter = 2, fringe = [],
                paths = (if wp then Some [a \<mapsto> [a], b \<mapsto> [a, b]] else None)\<rparr>"
proof -
  let ?g = "weighted_edge a b w empty_graph"
  let ?e = "\<lparr>line = None, color = None, weight = Some w\<rparr>"
  let ?st1 = "\<lparr>dist = [a \<mapsto> 0], seen = [a \<mapsto> 0, b \<mapsto> w], counter = 2, fringe = [(w, 1, b)],
                paths = (if wp then Some [a \<mapsto> [a], b \<mapsto> [a, b]] else None)\<rparr>"
  have adj: "map_of (nx_adj ?g) a = Some [(b, ?e)]"
    unfolding single_edge_graph[OF ab] by simp
  have rel: "relax_all a 0 ((initial_state a wp)\<lparr>fringe := [], dist := [a \<mapsto> 0]\<rparr>) [(b, ?e)] = Inr ?st1"
    using ab by (simp add: relax_def initial_state_def cost_def Let_def)
  have 1: "dijkstra_loop ?g b (initial_state a wp) = dijkstra_loop ?g b ?st1"
    using ab adj rel by (subst dijkstra_loop.simps) (simp add: initial_state_def)
  have 2: "dijkstra_loop ?g b ?st1 =
           Inr \<lparr>dist = [a \<mapsto> 0, b \<mapsto> w], seen = [a \<mapsto> 0, b \<mapsto> w], counter = 2, fringe = [],
                paths = (if wp then Some [a \<mapsto> [a], b \<mapsto> [a, b]] else None)\<rparr>"
    using ab by (subst dijkstra_loop.simps) simp
  show ?thesis unfolding 1 2 ..
qed

lemma single_edge_any_weight:
  assumes ab: "a \<noteq> b"
  shows "dijkstra_shortest_path (weighted_edge a b w empty_graph) a b =
           Inr (Some [a, b], Some w, Some [(a, b, w)])"
proof -
  let ?g = "weighted_edge a b w empty_graph"
  have c: "contains ?g a" unfolding single_edge_graph[OF ab] by (simp add: contains_def)
  have p: "dijkstra_path ?g a b = Inr [a, b]"
    using ab c by (simp add: dijkstra_path_def single_edge_loop[OF ab])
  have d: "dijkstra_path_length ?g a b = Inr w"
    using ab c by (simp add: dijkstra_path_length_def single_edge_loop[OF ab])
  have e: "edge_details ?g [a, b] = Inr [(a, b, w)]"
    unfolding single_edge_graph[OF ab] by (simp add: edge_weight_def)
  show ?thesis using p d e by (simp add: dijkstra_shortest_path_def)
qed

lemma dijkstra_searches_at_cost_one:
  assumes wf: "wf_graph g" and dn: "distinct_neighbors g" and nn: "no_negative_weight g"
    and cp: "connected_pair g start goal"
  shows "\<exists>p d. dijkstra_path g start goal = Inr p \<and> path_between g start goal p \<and>
           dijkstra_path_length g start goal = Inr d \<and>
           (\<exists>q. path_between g start goal q \<and> path_sum g q = d) \<and>
           (\<forall>q. path_between g start goal q \<longrightarrow> d \<le> path_sum g q) \<and>
           (traverses_unweighted g p \<longrightarrow> dijkstra_shortest_path g start goal = Inl KeyError) \<and>
           (\<not> traverses_unweighted g p \<longrightarrow>
              (\<exists>det. dijkstra_shortest_path g start goal = Inr (Some p, Some d, Some det)))"
proof -
  have nc: "nonneg_costs g" using nn by (simp add: no_negative_weight_iff)
  from cp obtain q where q: "path_between g start goal q" unfolding connected_pair_def by blast
  from dijkstra_path_reachable[OF wf nc q] obtain p where
    p: "dijkstra_path g start goal = Inr p" "path_between g start goal p" by blast
  from dijkstra_path_length_least[OF wf dn nc q] obtain d where
    d: "dijkstra_path_length g start goal = Inr d"
    "\<exists>q. path_between g start goal q \<and> path_sum g q = d"
    "\<forall>q. path_between g start goal q \<longrightarrow> d \<le> path_sum g q"
    unfolding path_sum_path_cost by blast
  have pv: "is_path g p" using p(2) unfolding path_between_def by simp
  from dijkstra_shortest_path_cases[OF p(1) pv d(1)] p d show ?thesis by blast
qed

text \<open>
  C6 (as amended). \<^verbatim>\<open>dijkstra_shortest_path\<close> does not validate weights and has no
  invalid-weight failure. For every graph and pair: the only exceptions that reach the
  caller are \<^verbatim>\<open>KeyError\<close> and \<^verbatim>\<open>ValueError\<close>; and a result that is returned lists, for each
  segment of its path, the weight stored on that edge. For a well-formed graph without a
  negative weight and a connected pair, an edge without a weight is searched at cost 1:
  the library's distance is the least total, over all paths from \<open>start\<close> to \<open>goal\<close>, of
  the stored weights with 1 for each edge without a weight, and some path has that total;
  the query raises \<^verbatim>\<open>KeyError\<close> exactly when the path the library selected runs over an
  edge without a weight, and returns that path with that distance otherwise. A negative
  weight is accepted: in the graph of a single edge of any weight \<open>w\<close>, the query between
  its two ends returns the edge with total distance \<open>w\<close>.
\<close>

theorem dijkstra_no_weight_validation:
  "(dijkstra_shortest_path g start goal = Inl e \<longrightarrow> e = KeyError \<or> e = ValueError) \<and>
   (dijkstra_shortest_path g start goal = Inr (Some path, Some total_distance, Some details) \<longrightarrow>
      edge_details g path = Inr details \<and> length details = length path - 1 \<and>
      (\<forall>(u, v, w) \<in> set details. edge_weight g u v = Inr w)) \<and>
   (wf_graph g \<and> distinct_neighbors g \<and> no_negative_weight g \<and> connected_pair g start goal \<longrightarrow>
      (\<exists>p d. dijkstra_path g start goal = Inr p \<and> path_between g start goal p \<and>
         dijkstra_path_length g start goal = Inr d \<and>
         (\<exists>q. path_between g start goal q \<and> path_sum g q = d) \<and>
         (\<forall>q. path_between g start goal q \<longrightarrow> d \<le> path_sum g q) \<and>
         (traverses_unweighted g p \<longrightarrow> dijkstra_shortest_path g start goal = Inl KeyError) \<and>
         (\<not> traverses_unweighted g p \<longrightarrow>
            (\<exists>det. dijkstra_shortest_path g start goal = Inr (Some p, Some d, Some det))))) \<and>
   (start \<noteq> goal \<longrightarrow>
      dijkstra_shortest_path (weighted_edge start goal w empty_graph) start goal =
        Inr (Some [start, goal], Some w, Some [(start, goal, w)]))"
proof (intro conjI impI)
  assume a: "dijkstra_shortest_path g start goal = Inl e"
  show "e = KeyError \<or> e = ValueError"
  proof (cases "dijkstra_path g start goal")
    case (Inl e1)
    with a dijkstra_path_error[OF Inl] show ?thesis
      by (auto simp: dijkstra_shortest_path_def no_result_def split: if_splits)
  next
    case p: (Inr path)
    show ?thesis
    proof (cases "dijkstra_path_length g start goal")
      case (Inl e2)
      with a p dijkstra_path_length_error[OF Inl] show ?thesis
        by (auto simp: dijkstra_shortest_path_def no_result_def split: if_splits)
    next
      case (Inr total)
      with a p have "edge_details g path = Inl e"
        by (auto simp: dijkstra_shortest_path_def split: sum.splits)
      then show ?thesis by (auto dest: edge_details_error)
    qed
  qed
next
  assume a: "dijkstra_shortest_path g start goal = Inr (Some path, Some total_distance, Some details)"
  then have d: "edge_details g path = Inr details"
    by (auto simp: dijkstra_shortest_path_def no_result_def split: sum.splits if_splits)
  show "edge_details g path = Inr details" by (rule d)
  show "length details = length path - 1" using d by (rule edge_details_length)
  show "\<forall>(u, v, w) \<in> set details. edge_weight g u v = Inr w"
    using edge_details_weights[OF d] by blast
next
  assume "wf_graph g \<and> distinct_neighbors g \<and> no_negative_weight g \<and> connected_pair g start goal"
  then show "\<exists>p d. dijkstra_path g start goal = Inr p \<and> path_between g start goal p \<and>
         dijkstra_path_length g start goal = Inr d \<and>
         (\<exists>q. path_between g start goal q \<and> path_sum g q = d) \<and>
         (\<forall>q. path_between g start goal q \<longrightarrow> d \<le> path_sum g q) \<and>
         (traverses_unweighted g p \<longrightarrow> dijkstra_shortest_path g start goal = Inl KeyError) \<and>
         (\<not> traverses_unweighted g p \<longrightarrow>
            (\<exists>det. dijkstra_shortest_path g start goal = Inr (Some p, Some d, Some det)))"
    by (intro dijkstra_searches_at_cost_one) simp_all
next
  assume "start \<noteq> goal"
  then show "dijkstra_shortest_path (weighted_edge start goal w empty_graph) start goal =
        Inr (Some [start, goal], Some w, Some [(start, goal, w)])"
    by (rule single_edge_any_weight)
qed

theorem dijkstra_no_weight_validation_witness:
  "wf_graph missing_weight_graph \<and> distinct_neighbors missing_weight_graph \<and>
   no_negative_weight missing_weight_graph \<and> connected_pair missing_weight_graph ''A'' ''C'' \<and>
   dijkstra_path missing_weight_graph ''A'' ''C'' = Inr [''A'', ''B'', ''C''] \<and>
   traverses_unweighted missing_weight_graph [''A'', ''B'', ''C''] \<and>
   dijkstra_path_length missing_weight_graph ''A'' ''C'' = Inr 3 \<and>
   path_sum missing_weight_graph [''A'', ''B'', ''C''] = 3 \<and>
   dijkstra_shortest_path missing_weight_graph ''A'' ''C'' = Inl KeyError \<and>
   ''A'' \<noteq> ''B'' \<and>
   dijkstra_shortest_path (weighted_edge ''A'' ''B'' (- 1) empty_graph) ''A'' ''B'' =
     Inr (Some [''A'', ''B''], Some (- 1), Some [(''A'', ''B'', - 1)])"
proof -
  let ?g = "missing_weight_graph"
  have h1: "wf_graph ?g" by code_simp
  have h2: "distinct_neighbors ?g" by code_simp
  have h3: "no_negative_weight ?g" by code_simp
  have "path_between ?g ''A'' ''C'' [''A'', ''B'', ''C'']" by code_simp
  then have h4: "connected_pair ?g ''A'' ''C''" by (rule connected_pairI)
  have h5: "dijkstra_path ?g ''A'' ''C'' = Inr [''A'', ''B'', ''C'']" by code_simp
  have h6: "traverses_unweighted ?g [''A'', ''B'', ''C'']" by code_simp
  have h7: "dijkstra_path_length ?g ''A'' ''C'' = Inr 3" by code_simp
  have h8: "path_sum ?g [''A'', ''B'', ''C''] = 3" by code_simp
  have h9: "''A'' \<noteq> ''B''" by simp
  note t = dijkstra_no_weight_validation[of ?g "''A''" "''C''" KeyError "[]" 0 "[]" 0]
  from t h1 h2 h3 h4 obtain p d where
    pd: "dijkstra_path ?g ''A'' ''C'' = Inr p"
    "traverses_unweighted ?g p \<longrightarrow> dijkstra_shortest_path ?g ''A'' ''C'' = Inl KeyError"
    by blast
  from pd(1) h5 have "p = [''A'', ''B'', ''C'']" by simp
  with pd(2) h6 have k: "dijkstra_shortest_path ?g ''A'' ''C'' = Inl KeyError" by blast
  from dijkstra_no_weight_validation[of "g0" "''A''" "''B''" e0 p0 t0 d0 "- 1"] h9
  have n: "dijkstra_shortest_path (weighted_edge ''A'' ''B'' (- 1) empty_graph) ''A'' ''B'' =
     Inr (Some [''A'', ''B''], Some (- 1), Some [(''A'', ''B'', - 1)])"
    by blast
  show ?thesis by (intro conjI h1 h2 h3 h4 h5 h6 h7 h8 k h9 n)
qed

text \<open>
  C6 as stated fails: with an edge that lacks a weight elsewhere in the graph the query
  returns a path, and with a negative weight it returns a path of negative distance.
\<close>

theorem invalid_weight_counterexample:
  "\<not> all_weighted missing_weight_graph \<and>
   dijkstra_shortest_path missing_weight_graph ''A'' ''B'' =
     Inr (Some [''A'', ''B''], Some 2, Some [(''A'', ''B'', 2)]) \<and>
   \<not> nonneg_costs negative_graph \<and>
   dijkstra_shortest_path negative_graph ''A'' ''B'' =
     Inr (Some [''A'', ''B''], Some (- 1), Some [(''A'', ''B'', - 1)])"
  by code_simp

end
